theory Spec2Isabelle
  imports Complex_Main
begin

section \<open>Status codes shared by both source files\<close>

text \<open>
  The status values of the GraphBLAS C API that the two source files return or test.
  \<open>LAGRAPH_OK\<close> (LAGraph\_bc\_batch.c) and \<open>GrB_TRY\<close> (LAGraph\_Vector\_print.c) let
  \<open>GrB_SUCCESS\<close> and \<open>GrB_NO_VALUE\<close> pass and return every other status to the caller.
\<close>

datatype GrB_Info =
    GrB_SUCCESS
  | GrB_NO_VALUE
  | GrB_UNINITIALIZED_OBJECT
  | GrB_INVALID_OBJECT
  | GrB_NULL_POINTER
  | GrB_INVALID_VALUE
  | GrB_INDEX_OUT_OF_BOUNDS
  | GrB_DOMAIN_MISMATCH
  | GrB_DIMENSION_MISMATCH
  | GrB_OUT_OF_MEMORY
  | GrB_NOT_IMPLEMENTED

definition status_ok :: "GrB_Info \<Rightarrow> bool" where
  "status_ok info = (info = GrB_SUCCESS \<or> info = GrB_NO_VALUE)"

section \<open>The sparse-matrix engine as LAGraph\_bc\_batch.c uses it\<close>

text \<open>
  The GraphBLAS library is not part of the repository. Its operations are modelled here
  as far as LAGraph\_bc\_batch.c calls them, after the GraphBLAS C API: a matrix is the
  partial map of its stored entries (an entry may be stored with the value zero), and
  every operation computes a result \<open>T\<close> and writes it into the output \<open>C\<close> under a mask,
  an accumulator and a descriptor.
\<close>

type_synonym 'a matrix = "nat \<Rightarrow> nat \<Rightarrow> 'a option"
type_synonym 'a vector = "nat \<Rightarrow> 'a option"

text \<open>
  \<open>GrB_INT64\<close>: the integers from \<open>-2^63\<close> to \<open>2^63 - 1\<close>; sums and products
  wrap around.
\<close>

definition wrap64 :: "int \<Rightarrow> int" where
  "wrap64 x = (x + 2 ^ 63) mod 2 ^ 64 - 2 ^ 63"

definition GrB_PLUS_INT64 :: "int \<Rightarrow> int \<Rightarrow> int" where
  "GrB_PLUS_INT64 x y = wrap64 (x + y)"

definition GrB_TIMES_INT64 :: "int \<Rightarrow> int \<Rightarrow> int" where
  "GrB_TIMES_INT64 x y = wrap64 (x * y)"

text \<open>
  \<open>GrB_FP64\<close>: a finite value, taken as the exact rational (rounding is not modelled),
  or \<open>Nonfinite\<close> for an infinity or a NaN, which every sum and product keeps and
  which \<open>GrB_MINV_FP64\<close> returns at zero.
\<close>

datatype fp64 = Finite rat | Nonfinite

fun GrB_PLUS_FP64 :: "fp64 \<Rightarrow> fp64 \<Rightarrow> fp64" where
  "GrB_PLUS_FP64 (Finite x) (Finite y) = Finite (x + y)"
| "GrB_PLUS_FP64 _ _ = Nonfinite"

fun GrB_TIMES_FP64 :: "fp64 \<Rightarrow> fp64 \<Rightarrow> fp64" where
  "GrB_TIMES_FP64 (Finite x) (Finite y) = Finite (x * y)"
| "GrB_TIMES_FP64 _ _ = Nonfinite"

fun GrB_MINV_FP64 :: "fp64 \<Rightarrow> fp64" where
  "GrB_MINV_FP64 (Finite x) = (if x = 0 then Nonfinite else Finite (1 / x))"
| "GrB_MINV_FP64 Nonfinite = Nonfinite"

text \<open>Typecasts of the engine: into \<open>GrB_INT64\<close>, into \<open>GrB_FP64\<close>, into \<open>GrB_BOOL\<close>.\<close>

definition cast_INT64 :: "int matrix \<Rightarrow> int matrix" where
  "cast_INT64 A = (\<lambda>i j. map_option wrap64 (A i j))"

definition cast_FP64 :: "int matrix \<Rightarrow> fp64 matrix" where
  "cast_FP64 A = (\<lambda>i j. map_option (\<lambda>v. Finite (of_int v)) (A i j))"

definition cast_BOOL :: "int \<Rightarrow> bool" where
  "cast_BOOL v = (v \<noteq> 0)"

definition GrB_IDENTITY_BOOL :: "bool \<Rightarrow> bool" where
  "GrB_IDENTITY_BOOL b = b"

text \<open>
  Descriptors. \<open>desc_tsr\<close> is built in lines 136 to 139 (transpose the first input,
  replace the output, complement the mask), \<open>replace\<close> in lines 222 to 223;
  \<open>GrB_NULL\<close> as a descriptor is the default.
\<close>

record GrB_Descriptor =
  INP0_TRAN :: bool
  OUTP_REPLACE :: bool
  MASK_SCMP :: bool

definition GrB_NULL :: GrB_Descriptor where
  "GrB_NULL = \<lparr>INP0_TRAN = False, OUTP_REPLACE = False, MASK_SCMP = False\<rparr>"

definition desc_tsr :: GrB_Descriptor where
  "desc_tsr = \<lparr>INP0_TRAN = True, OUTP_REPLACE = True, MASK_SCMP = True\<rparr>"

definition replace :: GrB_Descriptor where
  "replace = \<lparr>INP0_TRAN = False, OUTP_REPLACE = True, MASK_SCMP = False\<rparr>"

text \<open>
  Masks. The version of the C API that has \<open>GrB_SCMP\<close> reads a mask by value: a
  position is in the mask when the mask matrix stores an entry there whose value, cast
  to \<open>bool\<close>, is true (\<open>By_Value\<close>). The comments of the source and the
  specification speak of the stored positions alone (\<open>By_Structure\<close>). The rule is a
  parameter, and the two agree whenever no zero is stored in a mask matrix.
\<close>

datatype mask_rule = By_Structure | By_Value

definition as_mask :: "mask_rule \<Rightarrow> ('m \<Rightarrow> bool) \<Rightarrow> 'm matrix \<Rightarrow> nat \<Rightarrow> nat \<Rightarrow> bool" where
  "as_mask r truth M = (\<lambda>i j. case M i j of None \<Rightarrow> False
                                | Some v \<Rightarrow> r = By_Structure \<or> truth v)"

definition masked :: "GrB_Descriptor \<Rightarrow> (nat \<Rightarrow> nat \<Rightarrow> bool) option \<Rightarrow> nat \<Rightarrow> nat \<Rightarrow> bool" where
  "masked desc M i j =
     (case M of None \<Rightarrow> \<not> MASK_SCMP desc
      | Some m \<Rightarrow> (if MASK_SCMP desc then \<not> m i j else m i j))"

text \<open>
  Writing a result: \<open>Z\<close> is \<open>T\<close>, or \<open>C\<close> combined with \<open>T\<close> by the accumulator where
  one is given (on the union of the stored positions); where the mask allows, \<open>C\<close>
  takes the entry of \<open>Z\<close> (or loses its entry when \<open>Z\<close> has none); elsewhere \<open>C\<close> keeps
  its entry, or loses it under \<open>GrB_REPLACE\<close>.
\<close>

definition accum_entry :: "('a \<Rightarrow> 'a \<Rightarrow> 'a) option \<Rightarrow> 'a option \<Rightarrow> 'a option \<Rightarrow> 'a option" where
  "accum_entry accum c t =
     (case accum of None \<Rightarrow> t
      | Some f \<Rightarrow> (case c of None \<Rightarrow> t
          | Some x \<Rightarrow> (case t of None \<Rightarrow> Some x | Some y \<Rightarrow> Some (f x y))))"

definition GrB_write ::
  "GrB_Descriptor \<Rightarrow> (nat \<Rightarrow> nat \<Rightarrow> bool) option \<Rightarrow> ('a \<Rightarrow> 'a \<Rightarrow> 'a) option
     \<Rightarrow> 'a matrix \<Rightarrow> 'a matrix \<Rightarrow> 'a matrix" where
  "GrB_write desc M accum C T =
     (\<lambda>i j. if masked desc M i j then accum_entry accum (C i j) (T i j)
            else if OUTP_REPLACE desc then None else C i j)"

text \<open>Reduction of the values that take part in one entry; none gives no entry.\<close>

definition reduce_list :: "('a \<Rightarrow> 'a \<Rightarrow> 'a) \<Rightarrow> 'a list \<Rightarrow> 'a option" where
  "reduce_list f xs = (case xs of [] \<Rightarrow> None | x # ys \<Rightarrow> Some (foldl f x ys))"

definition products ::
  "nat \<Rightarrow> ('a \<Rightarrow> 'a \<Rightarrow> 'a) \<Rightarrow> (nat \<Rightarrow> 'a option) \<Rightarrow> (nat \<Rightarrow> 'a option) \<Rightarrow> 'a list" where
  "products n mul a b =
     concat (map (\<lambda>k. case a k of None \<Rightarrow> []
                      | Some x \<Rightarrow> (case b k of None \<Rightarrow> [] | Some y \<Rightarrow> [mul x y])) [0..<n])"

text \<open>
  \<open>GrB_mxm\<close> with a semiring \<open>(add, mul)\<close>; \<open>n\<close> is the inner dimension. The first input
  is transposed when the descriptor says so.
\<close>

definition GrB_mxm ::
  "nat \<Rightarrow> 'a matrix \<Rightarrow> (nat \<Rightarrow> nat \<Rightarrow> bool) option \<Rightarrow> ('a \<Rightarrow> 'a \<Rightarrow> 'a) option
     \<Rightarrow> ('a \<Rightarrow> 'a \<Rightarrow> 'a) \<Rightarrow> ('a \<Rightarrow> 'a \<Rightarrow> 'a) \<Rightarrow> 'a matrix \<Rightarrow> 'a matrix \<Rightarrow> GrB_Descriptor
     \<Rightarrow> 'a matrix" where
  "GrB_mxm n C M accum add mul A B desc =
     GrB_write desc M accum C
       (\<lambda>i j. reduce_list add
          (products n mul (\<lambda>k. if INP0_TRAN desc then A k i else A i k) (\<lambda>k. B k j)))"

text \<open>\<open>GrB_eWiseAdd\<close>: on the union of the stored positions.\<close>

definition GrB_eWiseAdd ::
  "'a matrix \<Rightarrow> (nat \<Rightarrow> nat \<Rightarrow> bool) option \<Rightarrow> ('a \<Rightarrow> 'a \<Rightarrow> 'a) option
     \<Rightarrow> ('a \<Rightarrow> 'a \<Rightarrow> 'a) \<Rightarrow> 'a matrix \<Rightarrow> 'a matrix \<Rightarrow> GrB_Descriptor \<Rightarrow> 'a matrix" where
  "GrB_eWiseAdd C M accum op A B desc =
     GrB_write desc M accum C
       (\<lambda>i j. case A i j of None \<Rightarrow> B i j
              | Some x \<Rightarrow> (case B i j of None \<Rightarrow> Some x | Some y \<Rightarrow> Some (op x y)))"

text \<open>\<open>GrB_eWiseMult\<close>: on the intersection of the stored positions.\<close>

definition GrB_eWiseMult ::
  "'a matrix \<Rightarrow> (nat \<Rightarrow> nat \<Rightarrow> bool) option \<Rightarrow> ('a \<Rightarrow> 'a \<Rightarrow> 'a) option
     \<Rightarrow> ('a \<Rightarrow> 'a \<Rightarrow> 'a) \<Rightarrow> 'a matrix \<Rightarrow> 'a matrix \<Rightarrow> GrB_Descriptor \<Rightarrow> 'a matrix" where
  "GrB_eWiseMult C M accum op A B desc =
     GrB_write desc M accum C
       (\<lambda>i j. case A i j of None \<Rightarrow> None
              | Some x \<Rightarrow> (case B i j of None \<Rightarrow> None | Some y \<Rightarrow> Some (op x y)))"

text \<open>\<open>GrB_apply\<close>: a unary operator on every stored entry.\<close>

definition GrB_apply ::
  "'b matrix \<Rightarrow> (nat \<Rightarrow> nat \<Rightarrow> bool) option \<Rightarrow> ('b \<Rightarrow> 'b \<Rightarrow> 'b) option
     \<Rightarrow> ('a \<Rightarrow> 'b) \<Rightarrow> 'a matrix \<Rightarrow> GrB_Descriptor \<Rightarrow> 'b matrix" where
  "GrB_apply C M accum f A desc = GrB_write desc M accum C (\<lambda>i j. map_option f (A i j))"

text \<open>
  \<open>GrB_assign\<close> of a scalar to all \<open>nrows\<close> by \<open>ncols\<close> positions, and to all \<open>nrows\<close>
  positions of a vector, without mask and accumulator as in lines 218 and 245.
\<close>

definition GrB_assign :: "'a matrix \<Rightarrow> 'a \<Rightarrow> nat \<Rightarrow> nat \<Rightarrow> 'a matrix" where
  "GrB_assign C x nrows ncols = (\<lambda>i j. if i < nrows \<and> j < ncols then Some x else C i j)"

definition GrB_Vector_assign :: "'a vector \<Rightarrow> 'a \<Rightarrow> nat \<Rightarrow> 'a vector" where
  "GrB_Vector_assign w x nrows = (\<lambda>i. if i < nrows then Some x else w i)"

text \<open>
  \<open>GrB_reduce\<close> of a matrix with \<open>ncols\<close> columns to a vector, row by row, with an
  accumulator and without a mask as in line 248.
\<close>

definition GrB_reduce ::
  "'a vector \<Rightarrow> ('a \<Rightarrow> 'a \<Rightarrow> 'a) option \<Rightarrow> ('a \<Rightarrow> 'a \<Rightarrow> 'a) \<Rightarrow> 'a matrix \<Rightarrow> nat \<Rightarrow> 'a vector" where
  "GrB_reduce w accum op A ncols =
     (\<lambda>i. accum_entry accum (w i)
        (reduce_list op (concat (map (\<lambda>j. case A i j of None \<Rightarrow> [] | Some x \<Rightarrow> [x]) [0..<ncols]))))"

text \<open>The number of stored entries of an \<open>nrows\<close> by \<open>ncols\<close> matrix.\<close>

definition GrB_Matrix_nvals :: "nat \<Rightarrow> nat \<Rightarrow> 'a matrix \<Rightarrow> nat" where
  "GrB_Matrix_nvals nrows ncols A =
     length (filter (\<lambda>(i, j). A i j \<noteq> None) (List.product [0..<nrows] [0..<ncols]))"

text \<open>
  \<open>GrB_Matrix_build\<close> of an empty \<open>nrows\<close> by \<open>ncols\<close> matrix from the first \<open>nvals\<close>
  tuples of three arrays; tuples at one position are combined by \<open>dup\<close>. An index
  outside the matrix is \<open>GrB_INDEX_OUT_OF_BOUNDS\<close>.
\<close>

definition GrB_Matrix_build ::
  "nat \<Rightarrow> nat \<Rightarrow> nat list \<Rightarrow> nat list \<Rightarrow> 'a list \<Rightarrow> nat \<Rightarrow> ('a \<Rightarrow> 'a \<Rightarrow> 'a)
     \<Rightarrow> GrB_Info + 'a matrix" where
  "GrB_Matrix_build nrows ncols I J X nvals dup =
     (if (\<exists>i \<in> set (take nvals I). nrows \<le> i) \<or> (\<exists>j \<in> set (take nvals J). ncols \<le> j)
      then Inl GrB_INDEX_OUT_OF_BOUNDS
      else Inr (\<lambda>i j. reduce_list dup
        (concat (map (\<lambda>k. if I ! k = i \<and> J ! k = j then [X ! k] else []) [0..<nvals]))))"

text \<open>
  The source list of the call: the constant \<open>GrB_ALL\<close> or an array of indices.
  \<open>GrB_extract\<close> of all rows and the listed columns of an \<open>n\<close> by \<open>n\<close> matrix (its
  transpose, when the descriptor says so) into an \<open>n\<close> by \<open>ncols\<close> output. With
  \<open>GrB_ALL\<close> the result has all \<open>n\<close> columns, whatever count is passed, and must fit the
  output.
\<close>

datatype sources = GrB_ALL | Indices "nat list"

definition GrB_extract ::
  "nat \<Rightarrow> nat \<Rightarrow> 'a matrix \<Rightarrow> (nat \<Rightarrow> nat \<Rightarrow> bool) option \<Rightarrow> ('a \<Rightarrow> 'a \<Rightarrow> 'a) option
     \<Rightarrow> 'a matrix \<Rightarrow> sources \<Rightarrow> nat \<Rightarrow> GrB_Descriptor \<Rightarrow> GrB_Info + 'a matrix" where
  "GrB_extract n ncols C M accum A cols count desc =
     (case cols of
        GrB_ALL \<Rightarrow>
          if ncols \<noteq> n then Inl GrB_DIMENSION_MISMATCH
          else Inr (GrB_write desc M accum C
                 (\<lambda>i k. if k < n then (if INP0_TRAN desc then A k i else A i k) else None))
      | Indices s \<Rightarrow>
          if \<exists>c \<in> set (take count s). n \<le> c then Inl GrB_INDEX_OUT_OF_BOUNDS
          else if ncols \<noteq> count then Inl GrB_DIMENSION_MISMATCH
          else Inr (GrB_write desc M accum C
                 (\<lambda>i k. if k < count
                        then (if INP0_TRAN desc then A (s ! k) i else A i (s ! k))
                        else None)))"

section \<open>LAGraph\_bc\_batch.c\<close>

text \<open>
  A run ends on the failing path of \<open>LAGRAPH_OK\<close> with a status of the engine, or it
  reads or writes outside an array that the function allocated (\<open>s_all\<close>, \<open>sources\<close>,
  \<open>S_array\<close>), which C leaves undefined, or it returns the result. What the cleanup of
  the failing path does is modelled with the setup of the call, further down.
\<close>

datatype failure = Status GrB_Info | Out_of_bounds

text \<open>
  Modelled from the spec: the macro \<open>LAGRAPH_OK\<close> of LAGraph\_internal.h, which is not
  among the sources. Every operation's status is checked before the next step, and the
  first failure ends the call with that status.
\<close>

definition LAGRAPH_OK :: "GrB_Info + 'a \<Rightarrow> failure + 'a" where
  "LAGRAPH_OK x = (case x of Inl info \<Rightarrow> Inl (Status info) | Inr y \<Rightarrow> Inr y)"

text \<open>
  The state of the breadth-first search stage. \<open>S_array\<close> is the list of the matrices
  stored so far, so that \<open>S_array[depth] = \<dots>\<close> appends one.
\<close>

record bfs_state =
  paths :: "int matrix"
  frontier :: "int matrix"
  S_array :: "bool matrix list"
  depth :: nat

definition GrB_Matrix_new :: "'a matrix" where
  "GrB_Matrix_new = (\<lambda>i j. None)"

definition GrB_Vector_new :: "'a vector" where
  "GrB_Vector_new = (\<lambda>i. None)"

text \<open>
  Lines 141 to 174: \<open>paths[s[i], i] = 1\<close>. The arrays \<open>i_nsver\<close> and \<open>ones\<close> have
  \<open>num_sources\<close> elements and \<open>s_all\<close> has \<open>n\<close>; the build reads \<open>num_sources\<close> elements
  of each. \<open>num_sources\<close> is taken non-negative, \<open>n\<close> is what \<open>GrB_Matrix_nrows\<close>
  returns and the graph is \<open>n\<close> by \<open>n\<close>.
\<close>

definition init_paths :: "nat \<Rightarrow> sources \<Rightarrow> nat \<Rightarrow> failure + int matrix" where
  "init_paths n srcs num_sources =
     (case srcs of
        GrB_ALL \<Rightarrow>
          if n < num_sources then Inl Out_of_bounds
          else LAGRAPH_OK (GrB_Matrix_build n num_sources [0..<n] [0..<num_sources]
                 (replicate num_sources 1) num_sources GrB_PLUS_INT64)
      | Indices s \<Rightarrow>
          if length s < num_sources then Inl Out_of_bounds
          else LAGRAPH_OK (GrB_Matrix_build n num_sources s [0..<num_sources]
                 (replicate num_sources 1) num_sources GrB_PLUS_INT64))"

text \<open>Lines 178 to 179: the frontier starts as the out-neighbours of the sources.\<close>

definition init_frontier ::
  "mask_rule \<Rightarrow> int matrix \<Rightarrow> nat \<Rightarrow> sources \<Rightarrow> nat \<Rightarrow> int matrix \<Rightarrow> failure + int matrix" where
  "init_frontier r A n srcs num_sources paths0 =
     LAGRAPH_OK (GrB_extract n num_sources GrB_Matrix_new (Some (as_mask r cast_BOOL paths0)) None
       (cast_INT64 A) srcs num_sources desc_tsr)"

text \<open>The body of the \<open>do\<close> loop, lines 190 to 205.\<close>

definition next_paths :: "bfs_state \<Rightarrow> int matrix" where
  "next_paths st =
     GrB_eWiseAdd (paths st) None None GrB_PLUS_INT64 (paths st) (frontier st) GrB_NULL"

definition next_frontier :: "mask_rule \<Rightarrow> int matrix \<Rightarrow> nat \<Rightarrow> bfs_state \<Rightarrow> int matrix" where
  "next_frontier r A n st =
     GrB_mxm n (frontier st) (Some (as_mask r cast_BOOL (next_paths st))) None
       GrB_PLUS_INT64 GrB_TIMES_INT64 (cast_INT64 A) (frontier st) desc_tsr"

definition bfs_body :: "mask_rule \<Rightarrow> int matrix \<Rightarrow> nat \<Rightarrow> bfs_state \<Rightarrow> bfs_state" where
  "bfs_body r A n st =
     \<lparr>paths = next_paths st,
      frontier = next_frontier r A n st,
      S_array = S_array st @
        [GrB_apply GrB_Matrix_new None None (\<lambda>v. GrB_IDENTITY_BOOL (cast_BOOL v)) (frontier st)
           GrB_NULL],
      depth = depth st + 1\<rparr>"

text \<open>
  The \<open>do \<dots> while (sum)\<close> loop. \<open>S_array\<close> was allocated with \<open>n\<close> elements (line 182),
  so that an iteration with \<open>depth \<ge> n\<close> writes outside it.
\<close>

function bfs_loop ::
  "mask_rule \<Rightarrow> int matrix \<Rightarrow> nat \<Rightarrow> nat \<Rightarrow> bfs_state \<Rightarrow> failure + bfs_state" where
  "bfs_loop r A n num_sources st =
     (if n \<le> depth st then Inl Out_of_bounds
      else if GrB_Matrix_nvals n num_sources (frontier (bfs_body r A n st)) \<noteq> 0
        then bfs_loop r A n num_sources (bfs_body r A n st)
        else Inr (bfs_body r A n st))"
  by pat_completeness auto
termination
  by (relation "measure (\<lambda>(r, A, n, num_sources, st). n - depth st)")
     (auto simp: bfs_body_def)

declare bfs_loop.simps [simp del]

text \<open>The forward phase: lines 141 to 207.\<close>

definition bfs_init ::
  "mask_rule \<Rightarrow> int matrix \<Rightarrow> nat \<Rightarrow> sources \<Rightarrow> nat \<Rightarrow> failure + bfs_state" where
  "bfs_init r A n srcs num_sources =
     (case init_paths n srcs num_sources of Inl e \<Rightarrow> Inl e
      | Inr paths0 \<Rightarrow>
     (case init_frontier r A n srcs num_sources paths0 of Inl e \<Rightarrow> Inl e
      | Inr frontier0 \<Rightarrow>
          Inr \<lparr>paths = paths0, frontier = frontier0, S_array = [], depth = 0\<rparr>))"

definition forward ::
  "mask_rule \<Rightarrow> int matrix \<Rightarrow> nat \<Rightarrow> sources \<Rightarrow> nat \<Rightarrow> failure + bfs_state" where
  "forward r A n srcs num_sources =
     (case bfs_init r A n srcs num_sources of Inl e \<Rightarrow> Inl e
      | Inr st0 \<Rightarrow> bfs_loop r A n num_sources st0)"

text \<open>The state of the second stage, and lines 211 to 218 and 226.\<close>

record bc_state =
  bc_update :: "fp64 matrix"
  temp :: "fp64 matrix"

definition inv_paths :: "bfs_state \<Rightarrow> fp64 matrix" where
  "inv_paths st =
     GrB_apply GrB_Matrix_new None None GrB_MINV_FP64 (cast_FP64 (paths st)) GrB_NULL"

definition init_bc :: "nat \<Rightarrow> nat \<Rightarrow> bc_state" where
  "init_bc n num_sources =
     \<lparr>bc_update = GrB_assign GrB_Matrix_new (Finite 1) n num_sources, temp = GrB_Matrix_new\<rparr>"

text \<open>The three operations of the loop body, lines 234, 237 and 240.\<close>

definition bc_share :: "mask_rule \<Rightarrow> bfs_state \<Rightarrow> nat \<Rightarrow> bc_state \<Rightarrow> fp64 matrix" where
  "bc_share r st i bs =
     GrB_eWiseMult (temp bs) (Some (as_mask r id (S_array st ! i))) None GrB_TIMES_FP64
       (bc_update bs) (inv_paths st) replace"

definition bc_propagate ::
  "mask_rule \<Rightarrow> int matrix \<Rightarrow> nat \<Rightarrow> bfs_state \<Rightarrow> nat \<Rightarrow> fp64 matrix \<Rightarrow> fp64 matrix" where
  "bc_propagate r A n st i t =
     GrB_mxm n t (Some (as_mask r id (S_array st ! (i - 1)))) None
       GrB_PLUS_FP64 GrB_TIMES_FP64 (cast_FP64 A) t replace"

definition bc_accumulate :: "bfs_state \<Rightarrow> fp64 matrix \<Rightarrow> fp64 matrix \<Rightarrow> fp64 matrix" where
  "bc_accumulate st bc t =
     GrB_eWiseMult bc None (Some GrB_PLUS_FP64) GrB_TIMES_FP64 t (cast_FP64 (paths st)) GrB_NULL"

definition backward_step ::
  "mask_rule \<Rightarrow> int matrix \<Rightarrow> nat \<Rightarrow> bfs_state \<Rightarrow> nat \<Rightarrow> bc_state \<Rightarrow> bc_state" where
  "backward_step r A n st i bs =
     \<lparr>bc_update =
        bc_accumulate st (bc_update bs) (bc_propagate r A n st i (bc_share r st i bs)),
      temp = bc_propagate r A n st i (bc_share r st i bs)\<rparr>"

text \<open>
  The loop \<open>for (int i = depth - 1; i > 0; i--)\<close>. \<open>depth\<close> is an \<open>int64_t\<close> and \<open>i\<close> an
  \<open>int\<close>, so the start value is \<open>depth - 1\<close> converted to 32 bits.
\<close>

definition wrap32 :: "int \<Rightarrow> int" where
  "wrap32 x = (x + 2 ^ 31) mod 2 ^ 32 - 2 ^ 31"

function backward_loop ::
  "mask_rule \<Rightarrow> int matrix \<Rightarrow> nat \<Rightarrow> bfs_state \<Rightarrow> int \<Rightarrow> bc_state \<Rightarrow> bc_state" where
  "backward_loop r A n st i bs =
     (if 0 < i then backward_loop r A n st (i - 1) (backward_step r A n st (nat i) bs)
      else bs)"
  by pat_completeness auto
termination
  by (relation "measure (\<lambda>(r, A, n, st, i, bs). nat i)") auto

declare backward_loop.simps [simp del]

definition backward ::
  "mask_rule \<Rightarrow> int matrix \<Rightarrow> nat \<Rightarrow> nat \<Rightarrow> bfs_state \<Rightarrow> bc_state" where
  "backward r A n num_sources st =
     backward_loop r A n st (wrap32 (int (depth st) - 1)) (init_bc n num_sources)"

text \<open>
  Line 245 passes \<open>-(float)num_sources\<close>: the \<open>int32_t\<close> is converted to single precision,
  which has a significand of 24 bits, by rounding to the nearest value, ties to the even
  significand; \<open>GrB_assign\<close> then converts the \<open>float\<close> to \<open>GrB_FP64\<close> without change.
  \<open>excess_bits k\<close> is the number of low bits of \<open>k \<ge> 0\<close> that do not fit the significand.
\<close>

function excess_bits :: "int \<Rightarrow> nat" where
  "excess_bits k = (if k < 16777216 then 0 else Suc (excess_bits (k div 2)))"
  by pat_completeness auto
termination
  by (relation "measure nat") auto

declare excess_bits.simps [simp del]

definition cast_float :: "int \<Rightarrow> int" where
  "cast_float k =
     (let e = excess_bits \<bar>k\<bar>; q = \<bar>k\<bar> div 2 ^ e; r = \<bar>k\<bar> mod 2 ^ e
      in sgn k * ((if 2 * r < 2 ^ e \<or> (2 * r = 2 ^ e \<and> even q) then q else q + 1) * 2 ^ e))"

text \<open>Lines 243 to 248: the result vector.\<close>

definition centrality_of :: "nat \<Rightarrow> nat \<Rightarrow> bc_state \<Rightarrow> fp64 vector" where
  "centrality_of n num_sources bs =
     GrB_reduce
       (GrB_Vector_assign GrB_Vector_new (Finite (of_int (- cast_float (int num_sources)))) n)
       (Some GrB_PLUS_FP64) GrB_PLUS_FP64 (bc_update bs) num_sources"

definition LAGraph_bc_batch ::
  "mask_rule \<Rightarrow> int matrix \<Rightarrow> nat \<Rightarrow> sources \<Rightarrow> nat \<Rightarrow> failure + fp64 vector" where
  "LAGraph_bc_batch r A n srcs num_sources =
     (case forward r A n srcs num_sources of Inl e \<Rightarrow> Inl e
      | Inr st \<Rightarrow> Inr (centrality_of n num_sources (backward r A n num_sources st)))"

section \<open>LAGraph\_Vector\_print.c\<close>

text \<open>
  The eleven built-in types that \<open>LAGraph_Vector_print_type\<close> dispatches on; every other
  type (a user-defined type, or the complex types of the disabled \<open>#if 0\<close> branches) is
  \<open>Other_Type\<close>.
\<close>

datatype GrB_Type =
    GrB_BOOL | GrB_INT8 | GrB_INT16 | GrB_INT32 | GrB_INT64
  | GrB_UINT8 | GrB_UINT16 | GrB_UINT32 | GrB_UINT64
  | GrB_FP32 | GrB_FP64
  | Other_Type

text \<open>
  A non-null vector handle: its type, its size and its stored tuples in the order
  \<open>GrB_Vector_extractTuples\<close> delivers them. A handle argument is an \<open>option\<close>, with
  \<open>None\<close> for \<open>NULL\<close>.
\<close>

record 'x GrB_Vector =
  vtype :: GrB_Type
  vsize :: nat
  vtuples :: "(nat \<times> 'x) list"

text \<open>
  What \<open>FPRINTF\<close> appends to the file, one item per call. The conversion of a number to
  characters is left to \<open>printf\<close>: an item keeps the format string and the arguments.
  Calls to \<open>fprintf\<close> are taken to succeed, and the text written to \<open>msg\<close> is not
  part of the model.
\<close>

datatype 'x out =
    Header GrB_Type nat nat
  | Index nat
  | Entry string 'x
  | Newline
  | Dots

definition GrB_Vector_nvals :: "'x GrB_Vector \<Rightarrow> nat" where
  "GrB_Vector_nvals v = length (vtuples v)"

definition GrB_Vector_extractTuples :: "'x GrB_Vector \<Rightarrow> GrB_Info + (nat \<times> 'x) list" where
  "GrB_Vector_extractTuples v =
     (if vtype v = Other_Type then Inl GrB_DOMAIN_MISMATCH else Inr (vtuples v))"

text \<open>The \<open>for\<close> loop of \<open>LG_VECTOR_PRINT\<close>, lines 63 to 77; \<open>k\<close> is the loop counter.\<close>

fun print_tuples :: "bool \<Rightarrow> string \<Rightarrow> nat \<Rightarrow> (nat \<times> 'x) list \<Rightarrow> 'x out list" where
  "print_tuples summary format k [] = []"
| "print_tuples summary format k ((i, x) # ts) =
     [Index i, Entry format x, Newline] @
     (if summary \<and> 29 \<le> k then [Dots] else print_tuples summary format (Suc k) ts)"

text \<open>
  The body of the macro \<open>LG_VECTOR_PRINT\<close>. \<open>gtype\<close>, \<open>fmt1\<close> and \<open>fmt2\<close> are the macro's
  arguments, \<open>malloc_ok\<close> says whether the two calls of \<open>LAGraph_Malloc\<close> both return
  memory. The result is the status and the file afterwards.
\<close>

definition LG_Vector_print ::
  "GrB_Type \<Rightarrow> string \<Rightarrow> string \<Rightarrow> bool \<Rightarrow> 'x GrB_Vector option \<Rightarrow> int \<Rightarrow> 'x out list option
     \<Rightarrow> GrB_Info \<times> 'x out list option" where
  "LG_Vector_print gtype fmt1 fmt2 malloc_ok v pr f =
     (case v of None \<Rightarrow> (GrB_NULL_POINTER, f) | Some vec \<Rightarrow>
      (case f of None \<Rightarrow> (GrB_NULL_POINTER, f) | Some file \<Rightarrow>
        if pr < 0 then (GrB_SUCCESS, Some file)
        else if pr \<le> 1
          then (GrB_SUCCESS, Some (file @ [Header gtype (vsize vec) (GrB_Vector_nvals vec)]))
        else if \<not> malloc_ok
          then (GrB_OUT_OF_MEMORY,
                Some (file @ [Header gtype (vsize vec) (GrB_Vector_nvals vec)]))
        else (case GrB_Vector_extractTuples vec of
            Inl info \<Rightarrow>
              (if info = GrB_DOMAIN_MISMATCH then GrB_NOT_IMPLEMENTED else info,
               Some (file @ [Header gtype (vsize vec) (GrB_Vector_nvals vec)]))
          | Inr tuples \<Rightarrow>
              (GrB_SUCCESS,
               Some (file @ [Header gtype (vsize vec) (GrB_Vector_nvals vec)] @
                 print_tuples ((pr = 2 \<or> pr = 4) \<and> 30 < GrB_Vector_nvals vec)
                   (if pr \<le> 3 then fmt1 else fmt2) 0 tuples)))))"

text \<open>The eleven instances of the macro, lines 82 to 92, and the dispatch on the type.\<close>

definition LAGraph_Vector_print_type ::
  "bool \<Rightarrow> 'x GrB_Vector option \<Rightarrow> GrB_Type \<Rightarrow> int \<Rightarrow> 'x out list option
     \<Rightarrow> GrB_Info \<times> 'x out list option" where
  "LAGraph_Vector_print_type malloc_ok v type pr f =
     (if type = GrB_BOOL then LG_Vector_print GrB_BOOL ''%d'' ''%d'' malloc_ok v pr f
      else if type = GrB_INT8 then LG_Vector_print GrB_INT8 ''%d'' ''%d'' malloc_ok v pr f
      else if type = GrB_INT16 then LG_Vector_print GrB_INT16 ''%d'' ''%d'' malloc_ok v pr f
      else if type = GrB_INT32
        then LG_Vector_print GrB_INT32 ''%PRId32'' ''%PRId32'' malloc_ok v pr f
      else if type = GrB_INT64
        then LG_Vector_print GrB_INT64 ''%PRId64'' ''%PRId64'' malloc_ok v pr f
      else if type = GrB_UINT8 then LG_Vector_print GrB_UINT8 ''%d'' ''%d'' malloc_ok v pr f
      else if type = GrB_UINT16 then LG_Vector_print GrB_UINT16 ''%d'' ''%d'' malloc_ok v pr f
      else if type = GrB_UINT32
        then LG_Vector_print GrB_UINT32 ''%PRIu32'' ''%PRIu32'' malloc_ok v pr f
      else if type = GrB_UINT64
        then LG_Vector_print GrB_UINT64 ''%PRIu64'' ''%PRIu64'' malloc_ok v pr f
      else if type = GrB_FP32 then LG_Vector_print GrB_FP32 ''%g'' ''%0.7g'' malloc_ok v pr f
      else if type = GrB_FP64 then LG_Vector_print GrB_FP64 ''%g'' ''%0.15g'' malloc_ok v pr f
      else (GrB_NOT_IMPLEMENTED, f))"

text \<open>
  \<open>LAGraph_Vector_print\<close>, lines 189 to 228. \<open>LG_SUITESPARSE\<close> is a configuration macro
  that is not defined in this file, so it is a parameter: when it is set the type is
  the vector's own (\<open>GxB_Vector_type\<close>), otherwise the vector is printed as \<open>GrB_FP64\<close>.
\<close>

definition LAGraph_Vector_print ::
  "bool \<Rightarrow> bool \<Rightarrow> 'x GrB_Vector option \<Rightarrow> int \<Rightarrow> 'x out list option
     \<Rightarrow> GrB_Info \<times> 'x out list option" where
  "LAGraph_Vector_print LG_SUITESPARSE malloc_ok v pr f =
     (case v of None \<Rightarrow> (GrB_NULL_POINTER, f) | Some vec \<Rightarrow>
      (case f of None \<Rightarrow> (GrB_NULL_POINTER, f) | Some file \<Rightarrow>
        LAGraph_Vector_print_type malloc_ok v
          (if LG_SUITESPARSE then vtype vec else GrB_FP64) pr f))"

subsection \<open>Notions used in the properties\<close>

text \<open>A matrix given by the list of its stored entries.\<close>

definition matrix_of :: "((nat \<times> nat) \<times> int) list \<Rightarrow> int matrix" where
  "matrix_of es = (\<lambda>i j. map_of es (i, j))"

text \<open>The range of \<open>GrB_INT64\<close>.\<close>

definition in64 :: "int \<Rightarrow> bool" where
  "in64 v = (- (2 ^ 63) \<le> v \<and> v < 2 ^ 63)"

text \<open>
  The invariant of the search loop behind the single-discovery property: a pair that
  some depth matrix holds as true has a nonzero path count, a pair with a nonzero path
  count is not in the frontier, and no pair is true in two depth matrices.
\<close>

definition discovered :: "bfs_state \<Rightarrow> bool" where
  "discovered st \<longleftrightarrow>
     length (S_array st) = depth st \<and>
     (\<forall>i j v. frontier st i j = Some v \<longrightarrow> in64 v) \<and>
     (\<forall>i j v. paths st i j = Some v \<longrightarrow> v \<noteq> 0 \<longrightarrow> frontier st i j = None) \<and>
     (\<forall>i j d. d < length (S_array st) \<longrightarrow> (S_array st ! d) i j = Some True \<longrightarrow>
        (\<exists>v. paths st i j = Some v \<and> v \<noteq> 0)) \<and>
     (\<forall>i j d d'. d < d' \<longrightarrow> d' < length (S_array st) \<longrightarrow>
        (S_array st ! d) i j = Some True \<longrightarrow> (S_array st ! d') i j \<noteq> Some True)"

text \<open>
The source of column \<open>k\<close>, and the source lists that the two initial calls accept:
  with \<open>GrB_ALL\<close> the count is \<open>n\<close>, and otherwise the array has at least
  \<open>num_sources\<close> elements and each one read is a node.
\<close>

definition source_at :: "sources \<Rightarrow> nat \<Rightarrow> nat" where
  "source_at srcs k = (case srcs of GrB_ALL \<Rightarrow> k | Indices s \<Rightarrow> s ! k)"

definition valid_sources :: "nat \<Rightarrow> sources \<Rightarrow> nat \<Rightarrow> bool" where
  "valid_sources n srcs num_sources =
     (case srcs of GrB_ALL \<Rightarrow> num_sources = n
      | Indices s \<Rightarrow> num_sources \<le> length s \<and> (\<forall>c \<in> set (take num_sources s). c < n))"

text \<open>
No selected source has an outgoing edge; node \<open>i\<close> has no incident edge.
\<close>

definition sourceless :: "int matrix \<Rightarrow> nat \<Rightarrow> sources \<Rightarrow> nat \<Rightarrow> bool" where
  "sourceless A n srcs num_sources =
     (\<forall>k \<in> set [0..<num_sources]. \<forall>i \<in> set [0..<n]. A (source_at srcs k) i = None)"

definition isolated :: "int matrix \<Rightarrow> nat \<Rightarrow> nat \<Rightarrow> bool" where
  "isolated A n i = (\<forall>k \<in> set [0..<n]. A i k = None \<and> A k i = None)"

text \<open>
The sum of a list of \<open>GrB_FP64\<close> values.
\<close>

definition fp_sum :: "fp64 list \<Rightarrow> fp64" where
  "fp_sum xs = foldl GrB_PLUS_FP64 (Finite 0) xs"

text \<open>
The invariant of the search loop behind the isolated-node property: row \<open>i\<close> of
  the frontier and of every depth matrix is empty.
\<close>

definition untouched :: "nat \<Rightarrow> nat \<Rightarrow> bfs_state \<Rightarrow> bool" where
  "untouched ns i st \<longleftrightarrow>
     (\<forall>j<ns. frontier st i j = None) \<and>
     (\<forall>d<length (S_array st). \<forall>j<ns. (S_array st ! d) i j = None)"

text \<open>
Every stored value of the adjacency matrix is a positive \<open>GrB_INT64\<close>; an unweighted
  graph, with 1 for every edge, is the usual case.
\<close>

definition positive_weights :: "int matrix \<Rightarrow> nat \<Rightarrow> bool" where
  "positive_weights A n =
     (\<forall>i \<in> set [0..<n]. \<forall>j \<in> set [0..<n].
        case A i j of None \<Rightarrow> True | Some v \<Rightarrow> 0 < v \<and> v < 2 ^ 63)"

text \<open>
The sums of products that the next \<open>GrB_mxm\<close> forms from the frontier of a state stay
  below \<open>2^63\<close>, computed in unbounded integers.
\<close>

definition fits :: "int matrix \<Rightarrow> nat \<Rightarrow> nat \<Rightarrow> bfs_state \<Rightarrow> bool" where
  "fits A n num_sources st =
     (\<forall>i \<in> set [0..<n]. \<forall>j \<in> set [0..<num_sources].
        sum_list (products n (*) (\<lambda>k. A k i) (\<lambda>k. frontier st k j)) < 2 ^ 63)"

text \<open>
No \<open>GrB_mxm\<close> of the search loop started in a state overflows: \<open>fits\<close> holds in
  every state from which the loop runs its body. The recursion is that of \<open>bfs_loop\<close>.
\<close>

function no_overflow :: "mask_rule \<Rightarrow> int matrix \<Rightarrow> nat \<Rightarrow> nat \<Rightarrow> bfs_state \<Rightarrow> bool" where
  "no_overflow r A n num_sources st =
     (if n \<le> depth st then True
      else if \<not> fits A n num_sources st then False
      else if GrB_Matrix_nvals n num_sources (frontier (bfs_body r A n st)) \<noteq> 0
        then no_overflow r A n num_sources (bfs_body r A n st)
        else True)"
  by pat_completeness auto
termination
  by (relation "measure (\<lambda>(r, A, n, num_sources, st). n - depth st)")
     (auto simp: bfs_body_def)

declare no_overflow.simps [simp del]

text \<open>
Invariants of the search loop, for the entries inside the \<open>n\<close> by \<open>num_sources\<close>
  matrices: the stored path counts and frontier values are positive; the frontier is
  disjoint from the path counts, and a column whose frontier is not empty has more than
  \<open>depth\<close> path counts.
\<close>

definition positive :: "nat \<Rightarrow> nat \<Rightarrow> bfs_state \<Rightarrow> bool" where
  "positive n ns st \<longleftrightarrow>
     (\<forall>i<n. \<forall>j<ns. \<forall>v. paths st i j = Some v \<longrightarrow> 0 < v) \<and>
     (\<forall>i<n. \<forall>j<ns. \<forall>v. frontier st i j = Some v \<longrightarrow> 0 < v)"

definition layered :: "nat \<Rightarrow> nat \<Rightarrow> bfs_state \<Rightarrow> bool" where
  "layered n ns st \<longleftrightarrow>
     (\<forall>i<n. \<forall>j<ns. frontier st i j \<noteq> None \<longrightarrow> paths st i j = None) \<and>
     (\<forall>j<ns. (\<exists>i<n. frontier st i j \<noteq> None) \<longrightarrow>
        depth st < card {i. i < n \<and> paths st i j \<noteq> None})"

text \<open>
\<open>no_overflow\<close> for the search of a call, and the path-count matrix after \<open>d\<close> passes
  of the loop body.
\<close>

definition no_overflow_run :: "mask_rule \<Rightarrow> int matrix \<Rightarrow> nat \<Rightarrow> sources \<Rightarrow> nat \<Rightarrow> bool" where
  "no_overflow_run r A n srcs num_sources =
     (case bfs_init r A n srcs num_sources of Inl e \<Rightarrow> False
      | Inr st0 \<Rightarrow> no_overflow r A n num_sources st0)"

definition paths_at :: "mask_rule \<Rightarrow> int matrix \<Rightarrow> nat \<Rightarrow> sources \<Rightarrow> nat \<Rightarrow> nat \<Rightarrow> int matrix" where
  "paths_at r A n srcs num_sources d =
     (case bfs_init r A n srcs num_sources of Inl e \<Rightarrow> GrB_Matrix_new
      | Inr st0 \<Rightarrow> paths ((bfs_body r A n ^^ d) st0))"

text \<open>
The directed path \<open>0 \<rightarrow> 1 \<rightarrow> 2 \<rightarrow> \<dots>\<close> with the value 1 on every edge, and the state of
  its search from source 0 after \<open>m\<close> passes of the loop.
\<close>

definition path_graph :: "int matrix" where
  "path_graph = (\<lambda>i j. if j = Suc i then Some 1 else None)"

definition path_state :: "nat \<Rightarrow> bfs_state" where
  "path_state m =
     \<lparr>paths = (\<lambda>i j. if j = 0 \<and> i \<le> m then Some 1 else None),
      frontier = (\<lambda>i j. if j = 0 \<and> i = Suc m then Some 1 else None),
      S_array = map (\<lambda>e. (\<lambda>i j. if j = 0 \<and> i = Suc e then Some True else None)) [0..<m],
      depth = m\<rparr>"

datatype call =
    Call_Matrix_nrows
  | Call_Vector_new
  | Call_Descriptor_new
  | Call_Descriptor_set_INP0
  | Call_Descriptor_set_OUTP
  | Call_Descriptor_set_MASK
  | Call_Matrix_new_paths
  | Call_Matrix_build
  | Call_Matrix_new_frontier
  | Call_extract

datatype resource =
    Centrality | Desc_tsr | I_nsver | Ones | S_all | Paths | Frontier | S_array_memory
  | Inv_paths | Bc_update | Replace | Temp

datatype step = Engine call "resource option" | Malloc resource | Free resource

text \<open>
Lines 127 to 182 as the sequence of what is called and allocated: the engine calls
  wrapped in \<open>LAGRAPH_OK\<close>, each with the object that it creates, and the calls of
  \<open>malloc\<close> and \<open>free\<close>. The function has no statement before the first engine call and
  no test of its arguments between the calls. \<open>setup_calls\<close> are the engine calls alone.
\<close>

definition setup_steps :: "sources \<Rightarrow> step list" where
  "setup_steps srcs =
     [Engine Call_Matrix_nrows None,
      Engine Call_Vector_new (Some Centrality),
      Engine Call_Descriptor_new (Some Desc_tsr),
      Engine Call_Descriptor_set_INP0 None,
      Engine Call_Descriptor_set_OUTP None,
      Engine Call_Descriptor_set_MASK None,
      Malloc I_nsver,
      Malloc Ones,
      Engine Call_Matrix_new_paths (Some Paths)] @
     (case srcs of
        GrB_ALL \<Rightarrow> [Malloc S_all, Engine Call_Matrix_build None, Free S_all]
      | Indices s \<Rightarrow> [Engine Call_Matrix_build None]) @
     [Free I_nsver,
      Free Ones,
      Engine Call_Matrix_new_frontier (Some Frontier),
      Engine Call_extract None,
      Malloc S_array_memory]"

definition setup_calls :: "call list" where
  "setup_calls =
     [Call_Matrix_nrows, Call_Vector_new, Call_Descriptor_new, Call_Descriptor_set_INP0,
      Call_Descriptor_set_OUTP, Call_Descriptor_set_MASK, Call_Matrix_new_paths,
      Call_Matrix_build, Call_Matrix_new_frontier, Call_extract]"

text \<open>
The macro \<open>LAGRAPH_FREE_ALL\<close>, lines 70 to 84: it calls \<open>GrB_free\<close> on the seven handles
  \<open>frontier\<close>, \<open>paths\<close>, \<open>inv_paths\<close>, \<open>bc_update\<close>, \<open>desc_tsr\<close>, \<open>replace\<close> and \<open>temp\<close>
  and \<open>free\<close> on \<open>S_array\<close> (the loop over \<open>S_array[i]\<close> is empty while \<open>depth\<close> is 0), and
  it releases neither the result vector nor the arrays \<open>i_nsver\<close>, \<open>ones\<close> and \<open>s_all\<close>.
  The eight variables are declared without an initialiser (lines 102 to 123), so the
  macro reads a variable that was never assigned unless all eight are held; C leaves
  that undefined, and the result is \<open>None\<close> then.
\<close>

definition freed_handles :: "resource list" where
  "freed_handles =
     [Frontier, Paths, Inv_paths, Bc_update, Desc_tsr, Replace, Temp, S_array_memory]"

definition LAGRAPH_FREE_ALL :: "resource list \<Rightarrow> resource list option" where
  "LAGRAPH_FREE_ALL held =
     (if set freed_handles \<subseteq> set held
      then Some (filter (\<lambda>x. x \<notin> set freed_handles) held) else None)"

text \<open>
How the setup ends: it goes on to the search loop, or \<open>LAGRAPH_OK\<close> returns a status
  after the cleanup, or the cleanup is undefined.
\<close>

datatype outcome = Continues | Returned GrB_Info | Undefined_cleanup

record setup_result =
  outcome :: outcome
  issued :: "call list"
  allocated :: "resource list"
  held :: "resource list"

text \<open>
Modelled from the spec: the failing path of the macro \<open>LAGRAPH_OK\<close> of
  LAGraph\_internal.h, which is not among the sources. After a call that the engine
  rejects it releases what the function owns, which is the macro \<open>LAGRAPH_FREE_ALL\<close> of
  lines 70 to 84, and returns the status.
\<close>

definition LAGRAPH_OK_failure :: "call \<Rightarrow> GrB_Info \<Rightarrow> setup_result \<Rightarrow> setup_result" where
  "LAGRAPH_OK_failure c info res =
     (case LAGRAPH_FREE_ALL (held res) of
        None \<Rightarrow> res\<lparr>outcome := Undefined_cleanup, issued := issued res @ [c]\<rparr>
      | Some h \<Rightarrow> res\<lparr>outcome := Returned info, issued := issued res @ [c], held := h\<rparr>)"

text \<open>
Running the sequence against an engine, given by the status that it returns for
  each call: \<open>LAGRAPH_OK\<close> goes on after \<open>GrB_SUCCESS\<close> and \<open>GrB_NO_VALUE\<close>. The result
  of \<open>malloc\<close> is not tested.
\<close>

fun run_steps :: "(call \<Rightarrow> GrB_Info) \<Rightarrow> step list \<Rightarrow> setup_result \<Rightarrow> setup_result" where
  "run_steps eng [] res = res"
| "run_steps eng (Engine c new # rest) res =
     (if status_ok (eng c)
      then run_steps eng rest
             (res\<lparr>issued := issued res @ [c],
                  allocated := allocated res @ (case new of None \<Rightarrow> [] | Some x \<Rightarrow> [x]),
                  held := held res @ (case new of None \<Rightarrow> [] | Some x \<Rightarrow> [x])\<rparr>)
      else LAGRAPH_OK_failure c (eng c) res)"
| "run_steps eng (Malloc x # rest) res =
     run_steps eng rest (res\<lparr>allocated := allocated res @ [x], held := held res @ [x]\<rparr>)"
| "run_steps eng (Free x # rest) res =
     run_steps eng rest (res\<lparr>held := remove1 x (held res)\<rparr>)"

definition bc_setup :: "(call \<Rightarrow> GrB_Info) \<Rightarrow> sources \<Rightarrow> setup_result" where
  "bc_setup eng srcs =
     run_steps eng (setup_steps srcs)
       \<lparr>outcome = Continues, issued = [], allocated = [], held = []\<rparr>"

text \<open>
The engine calls among the steps, and the calls of a list up to and including the
  first one that the engine rejects.
\<close>

fun calls_of :: "step list \<Rightarrow> call list" where
  "calls_of [] = []"
| "calls_of (Engine c new # rest) = c # calls_of rest"
| "calls_of (Malloc x # rest) = calls_of rest"
| "calls_of (Free x # rest) = calls_of rest"

fun upto_rejected :: "(call \<Rightarrow> GrB_Info) \<Rightarrow> call list \<Rightarrow> call list" where
  "upto_rejected eng [] = []"
| "upto_rejected eng (c # cs) = (if status_ok (eng c) then c # upto_rejected eng cs else [c])"

text \<open>
An engine for the concrete instances: it rejects one call with a given status and
  accepts every other call. Which call a real engine rejects for which arguments is not
  laid down in the sources.
\<close>

definition engine_rejecting :: "call \<Rightarrow> GrB_Info \<Rightarrow> call \<Rightarrow> GrB_Info" where
  "engine_rejecting bad info c = (if c = bad then info else GrB_SUCCESS)"

text \<open>
The betweenness centrality of the header comment, lines 41 to 52, by brute force:
  \<open>walks A n l s t\<close> counts the walks with \<open>l\<close> edges from \<open>s\<close> to \<open>t\<close> along the stored
  entries of \<open>A\<close>; the distance is the least such \<open>l\<close> below \<open>n\<close>, \<open>sigma\<close> the number of
  shortest paths, \<open>sigma_through\<close> the number of those that pass through \<open>i\<close>, and the
  centrality of \<open>i\<close> the sum of their quotients over \<open>s \<noteq> i \<noteq> t\<close>.
\<close>

fun walks :: "int matrix \<Rightarrow> nat \<Rightarrow> nat \<Rightarrow> nat \<Rightarrow> nat \<Rightarrow> nat" where
  "walks A n 0 s t = (if s = t then 1 else 0)"
| "walks A n (Suc l) s t =
     sum_list (map (\<lambda>k. if A k t \<noteq> None then walks A n l s k else 0) [0..<n])"

definition distance :: "int matrix \<Rightarrow> nat \<Rightarrow> nat \<Rightarrow> nat \<Rightarrow> nat option" where
  "distance A n s t = find (\<lambda>l. 0 < walks A n l s t) [0..<n]"

definition sigma :: "int matrix \<Rightarrow> nat \<Rightarrow> nat \<Rightarrow> nat \<Rightarrow> nat" where
  "sigma A n s t = (case distance A n s t of None \<Rightarrow> 0 | Some l \<Rightarrow> walks A n l s t)"

definition sigma_through :: "int matrix \<Rightarrow> nat \<Rightarrow> nat \<Rightarrow> nat \<Rightarrow> nat \<Rightarrow> nat" where
  "sigma_through A n s t i =
     (case distance A n s t of None \<Rightarrow> 0
      | Some c \<Rightarrow> (case distance A n s i of None \<Rightarrow> 0
          | Some a \<Rightarrow> (case distance A n i t of None \<Rightarrow> 0
              | Some b \<Rightarrow> if a + b = c then sigma A n s i * sigma A n i t else 0)))"

definition betweenness :: "int matrix \<Rightarrow> nat \<Rightarrow> nat \<Rightarrow> rat" where
  "betweenness A n i =
     sum_list (map (\<lambda>s. sum_list (map (\<lambda>t.
        if s = i \<or> t = i \<or> sigma A n s t = 0 then 0
        else of_nat (sigma_through A n s t i) / of_nat (sigma A n s t)) [0..<n])) [0..<n])"

text \<open>
Shortest paths in the terms of \<open>walks\<close>: \<open>t\<close> is reachable from \<open>s\<close> when some walk leads
  there, and \<open>hops\<close> is the length of a shortest one. These two serve the proofs; for
  nodes below \<open>n\<close> they agree with \<open>distance\<close>.
\<close>

definition reach :: "int matrix \<Rightarrow> nat \<Rightarrow> nat \<Rightarrow> nat \<Rightarrow> bool" where
  "reach A n s t \<longleftrightarrow> (\<exists>l. 0 < walks A n l s t)"

definition hops :: "int matrix \<Rightarrow> nat \<Rightarrow> nat \<Rightarrow> nat \<Rightarrow> nat" where
  "hops A n s t = (LEAST l. 0 < walks A n l s t)"

text \<open>
The dependency of source \<open>s\<close> on node \<open>v\<close>: the sum over the targets \<open>t \<noteq> v\<close> of the
  share of the shortest paths from \<open>s\<close> to \<open>t\<close> that pass through \<open>v\<close>. A successor of \<open>v\<close>
  is an out-neighbour one level further from \<open>s\<close>.
\<close>

definition dependency :: "int matrix \<Rightarrow> nat \<Rightarrow> nat \<Rightarrow> nat \<Rightarrow> rat" where
  "dependency A n s v =
     (\<Sum>t<n. if t = v \<or> sigma A n s t = 0 then 0
            else of_nat (sigma_through A n s t v) / of_nat (sigma A n s t))"

definition successor :: "int matrix \<Rightarrow> nat \<Rightarrow> nat \<Rightarrow> nat \<Rightarrow> nat \<Rightarrow> bool" where
  "successor A n s v w \<longleftrightarrow>
     A v w \<noteq> None \<and> reach A n s w \<and> hops A n s w = Suc (hops A n s v)"

text \<open>
Every stored value of the adjacency matrix is 1.
\<close>

definition unit_weights :: "int matrix \<Rightarrow> nat \<Rightarrow> bool" where
  "unit_weights A n =
     (\<forall>i \<in> set [0..<n]. \<forall>j \<in> set [0..<n]. case A i j of None \<Rightarrow> True | Some v \<Rightarrow> v = 1)"

text \<open>
The invariant of the search loop for such a matrix and all nodes as sources: after
  \<open>depth\<close> passes the frontier holds the nodes at distance \<open>depth + 1\<close> with the number
  of walks of that length, the path counts hold the shortest-path counts of the nodes at
  distance at most \<open>depth\<close>, and depth matrix \<open>k\<close> holds the nodes at distance \<open>k + 1\<close>.
\<close>

definition counted :: "int matrix \<Rightarrow> nat \<Rightarrow> bfs_state \<Rightarrow> bool" where
  "counted A n st \<longleftrightarrow>
     length (S_array st) = depth st \<and>
     (\<forall>i<n. \<forall>s<n. frontier st i s =
        (if reach A n s i \<and> hops A n s i = Suc (depth st)
         then Some (int (walks A n (Suc (depth st)) s i)) else None)) \<and>
     (\<forall>i<n. \<forall>s<n. paths st i s =
        (if reach A n s i \<and> hops A n s i \<le> depth st
         then Some (int (sigma A n s i)) else None)) \<and>
     (\<forall>k<depth st. \<forall>i<n. \<forall>s<n. (S_array st ! k) i s =
        (if reach A n s i \<and> hops A n s i = Suc k then Some True else None))"

text \<open>
The invariant of the backward loop: \<open>bc_update\<close> holds one plus the dependency for
  the nodes at distance at least \<open>k\<close>, and one elsewhere.
\<close>

definition tallied :: "int matrix \<Rightarrow> nat \<Rightarrow> nat \<Rightarrow> bc_state \<Rightarrow> bool" where
  "tallied A n k bs \<longleftrightarrow>
     (\<forall>v<n. \<forall>s<n. bc_update bs v s =
        Some (Finite (if reach A n s v \<and> k \<le> hops A n s v
                      then 1 + dependency A n s v else 1)))"

section \<open>Properties\<close>

subsection \<open>LAGraph\_Vector\_print: null handles and negative print levels\<close>

lemma LG_Vector_print_negative:
  "pr < 0 \<Longrightarrow> LG_Vector_print gtype fmt1 fmt2 m (Some vec) pr (Some file) = (GrB_SUCCESS, Some file)"
  by (simp add: LG_Vector_print_def)

lemma print_type_negative:
  "pr < 0 \<Longrightarrow> LAGraph_Vector_print_type m (Some vec) type pr (Some file) =
     (if type = Other_Type then GrB_NOT_IMPLEMENTED else GrB_SUCCESS, Some file)"
  by (cases type) (simp_all add: LAGraph_Vector_print_type_def LG_Vector_print_negative)

text \<open>
  C10, as stated, at a concrete input: with \<open>LG_SUITESPARSE\<close> set, a vector of a
  user-defined type, a non-null file and print level \<open>-1\<close>, the status is
  \<open>GrB_NOT_IMPLEMENTED\<close>, not \<open>GrB_SUCCESS\<close>.
\<close>

theorem C10_counterexample:
  "LAGraph_Vector_print True True
     (Some \<lparr>vtype = Other_Type, vsize = 3, vtuples = [(0, 7 :: int)]\<rparr>) (- 1) (Some [])
   = (GrB_NOT_IMPLEMENTED, Some [])"
  by (simp add: LAGraph_Vector_print_def LAGraph_Vector_print_type_def)

text \<open>
  C10, amended: a null vector handle or a null file handle gives \<open>GrB_NULL_POINTER\<close>;
  with both handles non-null and a negative print level nothing is written to the file,
  and the status is \<open>GrB_SUCCESS\<close> when the type that is printed is one of the eleven
  built-in types (always so without \<open>LG_SUITESPARSE\<close>) and \<open>GrB_NOT_IMPLEMENTED\<close>
  otherwise.
\<close>

theorem C10_null_or_negative:
  "(v = None \<or> f = None \<longrightarrow>
      fst (LAGraph_Vector_print ss m v pr f) = GrB_NULL_POINTER) \<and>
   (v = Some vec \<and> f = Some fl \<and> pr < 0 \<longrightarrow>
      LAGraph_Vector_print ss m v pr f =
        (if ss \<and> vtype vec = Other_Type then GrB_NOT_IMPLEMENTED else GrB_SUCCESS, Some fl))"
proof (intro conjI impI)
  assume "v = None \<or> f = None"
  then show "fst (LAGraph_Vector_print ss m v pr f) = GrB_NULL_POINTER"
    by (auto simp: LAGraph_Vector_print_def split: option.splits)
next
  assume a: "v = Some vec \<and> f = Some fl \<and> pr < 0"
  then have "LAGraph_Vector_print ss m v pr f =
      LAGraph_Vector_print_type m (Some vec) (if ss then vtype vec else GrB_FP64) pr (Some fl)"
    by (simp add: LAGraph_Vector_print_def)
  with a show "LAGraph_Vector_print ss m v pr f =
      (if ss \<and> vtype vec = Other_Type then GrB_NOT_IMPLEMENTED else GrB_SUCCESS, Some fl)"
    by (simp add: print_type_negative)
qed

theorem C10_null_or_negative_witness:
  "fst (LAGraph_Vector_print False True (None :: int GrB_Vector option) 3 (Some []))
     = GrB_NULL_POINTER \<and>
   LAGraph_Vector_print False True
     (Some \<lparr>vtype = GrB_INT32, vsize = 3, vtuples = [(0, 7 :: int)]\<rparr>) (- 1) (Some [Newline])
     = (GrB_SUCCESS, Some [Newline])"
  using C10_null_or_negative [where v = "None :: int GrB_Vector option" and f = "Some []"
      and ss = False and m = True and pr = 3]
    C10_null_or_negative [where v = "Some \<lparr>vtype = GrB_INT32, vsize = 3, vtuples = [(0, 7 :: int)]\<rparr>"
      and f = "Some [Newline]" and vec = "\<lparr>vtype = GrB_INT32, vsize = 3, vtuples = [(0, 7 :: int)]\<rparr>"
      and fl = "[Newline]" and pr = "- 1" and ss = False and m = True]
  by simp

subsection \<open>The engine operations, entry by entry\<close>

lemma in64_wrap64 [simp]: "in64 (wrap64 x)"
  by (simp add: in64_def wrap64_def)

lemma wrap64_id: "in64 v \<Longrightarrow> wrap64 v = v"
  by (simp add: in64_def wrap64_def)

lemma nvals_zero_iff:
  "GrB_Matrix_nvals nrows ncols M = 0 \<longleftrightarrow> (\<forall>i<nrows. \<forall>j<ncols. M i j = None)"
  by (auto simp: GrB_Matrix_nvals_def filter_empty_conv)

lemma next_paths_entry:
  "next_paths st i j =
     (case paths st i j of None \<Rightarrow> frontier st i j
      | Some x \<Rightarrow> (case frontier st i j of None \<Rightarrow> Some x
                   | Some y \<Rightarrow> Some (GrB_PLUS_INT64 x y)))"
  by (simp add: next_paths_def GrB_eWiseAdd_def GrB_write_def masked_def GrB_NULL_def
      accum_entry_def)

lemma next_frontier_entry:
  "next_frontier r A n st i j =
     (if as_mask r cast_BOOL (next_paths st) i j then None
      else reduce_list GrB_PLUS_INT64
             (products n GrB_TIMES_INT64 (\<lambda>k. cast_INT64 A k i) (\<lambda>k. frontier st k j)))"
  by (simp add: next_frontier_def GrB_mxm_def GrB_write_def masked_def desc_tsr_def
      accum_entry_def)

lemma bfs_body_sel [simp]:
  "paths (bfs_body r A n st) = next_paths st"
  "frontier (bfs_body r A n st) = next_frontier r A n st"
  "depth (bfs_body r A n st) = depth st + 1"
  "length (S_array (bfs_body r A n st)) = length (S_array st) + 1"
  by (simp_all add: bfs_body_def)

lemma snapshot_entry:
  "GrB_apply GrB_Matrix_new None None (\<lambda>v. GrB_IDENTITY_BOOL (cast_BOOL v)) F GrB_NULL i j
     = map_option (\<lambda>v. v \<noteq> 0) (F i j)"
  by (simp add: GrB_apply_def GrB_write_def masked_def GrB_NULL_def accum_entry_def
      GrB_IDENTITY_BOOL_def cast_BOOL_def)

lemma S_array_body_nth:
  "d < length (S_array st) \<Longrightarrow> S_array (bfs_body r A n st) ! d = S_array st ! d"
  "(S_array (bfs_body r A n st) ! length (S_array st)) i j = map_option (\<lambda>v. v \<noteq> 0) (frontier st i j)"
  by (simp_all add: bfs_body_def nth_append snapshot_entry)

lemma bfs_loop_inv:
  assumes "bfs_loop r A n ns st0 = Inr st" and "P st0"
    and "\<And>s. P s \<Longrightarrow> P (bfs_body r A n s)"
  shows "P st"
  using assms
proof (induction r A n ns st0 rule: bfs_loop.induct)
  case (1 r A n ns st0)
  from "1.prems"(1) have nd: "\<not> n \<le> depth st0"
    by (subst (asm) bfs_loop.simps) (auto split: if_splits)
  have Pb: "P (bfs_body r A n st0)"
    using "1.prems"(2,3) by blast
  show ?case
  proof (cases "GrB_Matrix_nvals n ns (frontier (bfs_body r A n st0)) \<noteq> 0")
    case True
    with "1.prems"(1) nd have "bfs_loop r A n ns (bfs_body r A n st0) = Inr st"
      by (subst (asm) bfs_loop.simps) simp
    with "1.IH" [OF nd True _ Pb] "1.prems"(3) show ?thesis by blast
  next
    case False
    with "1.prems"(1) nd have "st = bfs_body r A n st0"
      by (subst (asm) bfs_loop.simps) simp
    with Pb show ?thesis by simp
  qed
qed

subsection \<open>The search loop: each pair is discovered once\<close>

lemma foldl_plus_in64: "in64 x \<Longrightarrow> in64 (foldl GrB_PLUS_INT64 x ys)"
  by (induction ys arbitrary: x) (simp_all add: GrB_PLUS_INT64_def)

lemma reduce_plus_in64:
  "reduce_list GrB_PLUS_INT64 xs = Some v \<Longrightarrow> \<forall>x \<in> set xs. in64 x \<Longrightarrow> in64 v"
  by (cases xs) (auto simp: reduce_list_def foldl_plus_in64)

lemma products_times_in64: "\<forall>x \<in> set (products n GrB_TIMES_INT64 a b). in64 x"
  by (auto simp: products_def GrB_TIMES_INT64_def split: option.splits)

lemma next_frontier_in64: "next_frontier r A n st i j = Some v \<Longrightarrow> in64 v"
  using reduce_plus_in64 [OF _ products_times_in64]
  by (auto simp: next_frontier_entry split: if_splits)

lemma next_frontier_blocked:
  "next_paths st i j = Some v \<Longrightarrow> v \<noteq> 0 \<Longrightarrow> next_frontier r A n st i j = None"
  by (simp add: next_frontier_entry as_mask_def cast_BOOL_def)

lemma discovered_body:
  assumes "discovered st"
  shows "discovered (bfs_body r A n st)"
proof -
  let ?st' = "bfs_body r A n st"
  from assms have len: "length (S_array st) = depth st"
    and fr: "\<And>i j v. frontier st i j = Some v \<Longrightarrow> in64 v"
    and blk: "\<And>i j v. paths st i j = Some v \<Longrightarrow> v \<noteq> 0 \<Longrightarrow> frontier st i j = None"
    and seen: "\<And>i j d. d < length (S_array st) \<Longrightarrow> (S_array st ! d) i j = Some True \<Longrightarrow>
        \<exists>v. paths st i j = Some v \<and> v \<noteq> 0"
    and once: "\<And>i j d d'. d < d' \<Longrightarrow> d' < length (S_array st) \<Longrightarrow>
        (S_array st ! d) i j = Some True \<Longrightarrow> (S_array st ! d') i j \<noteq> Some True"
    unfolding discovered_def by blast+
  have new: "\<exists>v. next_paths st i j = Some v \<and> v \<noteq> 0"
    if "(S_array ?st' ! length (S_array st)) i j = Some True" for i j
  proof -
    from that obtain v where v: "frontier st i j = Some v" "v \<noteq> 0"
      by (auto simp: S_array_body_nth)
    then have iv: "in64 v" using fr by blast
    show ?thesis
    proof (cases "paths st i j")
      case None
      with v show ?thesis by (simp add: next_paths_entry)
    next
      case (Some x)
      with blk v have "x = 0" by fastforce
      with Some v iv show ?thesis
        by (simp add: next_paths_entry GrB_PLUS_INT64_def wrap64_id)
    qed
  qed
  have old: "\<exists>v. next_paths st i j = Some v \<and> v \<noteq> 0"
    if "d < length (S_array st)" "(S_array st ! d) i j = Some True" for i j d
  proof -
    from seen that obtain v where v: "paths st i j = Some v" "v \<noteq> 0" by blast
    with blk have "frontier st i j = None" by blast
    with v show ?thesis by (simp add: next_paths_entry)
  qed
  have 1: "length (S_array ?st') = depth ?st'" using len by simp
  have 2: "\<forall>i j v. frontier ?st' i j = Some v \<longrightarrow> in64 v"
    by (auto dest: next_frontier_in64)
  have 3: "\<forall>i j v. paths ?st' i j = Some v \<longrightarrow> v \<noteq> 0 \<longrightarrow> frontier ?st' i j = None"
    by (auto dest: next_frontier_blocked)
  have 4: "\<forall>i j d. d < length (S_array ?st') \<longrightarrow> (S_array ?st' ! d) i j = Some True \<longrightarrow>
        (\<exists>v. paths ?st' i j = Some v \<and> v \<noteq> 0)"
  proof (intro allI impI)
    fix i j d assume d: "d < length (S_array ?st')" and t: "(S_array ?st' ! d) i j = Some True"
    show "\<exists>v. paths ?st' i j = Some v \<and> v \<noteq> 0"
    proof (cases "d < length (S_array st)")
      case True
      with t old show ?thesis by (simp add: S_array_body_nth)
    next
      case False
      with d have "d = length (S_array st)" by simp
      with t new show ?thesis by simp
    qed
  qed
  have 5: "\<forall>i j d d'. d < d' \<longrightarrow> d' < length (S_array ?st') \<longrightarrow>
        (S_array ?st' ! d) i j = Some True \<longrightarrow> (S_array ?st' ! d') i j \<noteq> Some True"
  proof (intro allI impI)
    fix i j d d'
    assume dd: "d < d'" and d': "d' < length (S_array ?st')"
      and t: "(S_array ?st' ! d) i j = Some True"
    show "(S_array ?st' ! d') i j \<noteq> Some True"
    proof (cases "d' < length (S_array st)")
      case True
      with dd t once show ?thesis by (simp add: S_array_body_nth)
    next
      case False
      with d' have e: "d' = length (S_array st)" by simp
      with dd t have "(S_array st ! d) i j = Some True" by (simp add: S_array_body_nth)
      with seen dd e obtain v where "paths st i j = Some v" "v \<noteq> 0" by blast
      with blk have "frontier st i j = None" by blast
      with e show ?thesis by (simp add: S_array_body_nth)
    qed
  qed
  from 1 2 3 4 5 show ?thesis unfolding discovered_def by blast
qed

lemma init_frontier_entry:
  assumes "init_frontier r A n srcs ns p0 = Inr f0"
  shows "as_mask r cast_BOOL p0 i j \<Longrightarrow> f0 i j = None"
    and "f0 i j = Some v \<Longrightarrow> in64 v"
  using assms
  by (auto simp: init_frontier_def LAGRAPH_OK_def GrB_extract_def GrB_write_def masked_def
      desc_tsr_def accum_entry_def cast_INT64_def
      split: sources.splits if_splits sum.splits option.splits)

lemma discovered_init:
  assumes "bfs_init r A n srcs ns = Inr st0"
  shows "discovered st0"
proof -
  from assms obtain p0 f0 where p0: "init_paths n srcs ns = Inr p0"
    and f0: "init_frontier r A n srcs ns p0 = Inr f0"
    and st0: "st0 = \<lparr>paths = p0, frontier = f0, S_array = [], depth = 0\<rparr>"
    by (auto simp: bfs_init_def split: sum.splits)
  have "f0 i j = None" if "p0 i j = Some v" "v \<noteq> 0" for i j v
    using init_frontier_entry(1) [OF f0, of i j] that by (simp add: as_mask_def cast_BOOL_def)
  moreover have "in64 v" if "f0 i j = Some v" for i j v
    using init_frontier_entry(2) [OF f0 that] .
  ultimately show ?thesis unfolding discovered_def st0 by auto
qed

text \<open>
  C2: over the depth matrices \<open>S_array[0..depth-1]\<close> of a run of the forward phase, a
  (node, source) pair is stored with the value true in at most one of them: in exactly
  one, or in none.
\<close>

theorem C2_single_discovery:
  assumes "forward r A n srcs ns = Inr st"
    and "d < depth st" and "d' < depth st"
    and "(S_array st ! d) i j = Some True" and "(S_array st ! d') i j = Some True"
  shows "d = d'"
proof -
  from assms(1) obtain st0 where st0: "bfs_init r A n srcs ns = Inr st0"
    and loop: "bfs_loop r A n ns st0 = Inr st"
    by (auto simp: forward_def split: sum.splits)
  have "discovered st"
    using loop discovered_init [OF st0]
    by (rule bfs_loop_inv [where P = discovered]) (rule discovered_body)
  then have len: "length (S_array st) = depth st"
    and once: "\<And>i j d d'. d < d' \<Longrightarrow> d' < length (S_array st) \<Longrightarrow>
        (S_array st ! d) i j = Some True \<Longrightarrow> (S_array st ! d') i j \<noteq> Some True"
    unfolding discovered_def by blast+
  show ?thesis
  proof (rule ccontr)
    assume "d \<noteq> d'"
    then consider "d < d'" | "d' < d" by linarith
    then show False
    proof cases
      case 1
      with once [of d d' i j] assms len show False by simp
    next
      case 2
      with once [of d' d i j] assms len show False by simp
    qed
  qed
qed

theorem C2_single_discovery_witness:
  "forward By_Value (matrix_of [((0, 1), 1), ((1, 2), 1)]) 3 (Indices [0]) 1
     = Inr (projr (forward By_Value (matrix_of [((0, 1), 1), ((1, 2), 1)]) 3 (Indices [0]) 1)) \<and>
   depth (projr (forward By_Value (matrix_of [((0, 1), 1), ((1, 2), 1)]) 3 (Indices [0]) 1)) = 2 \<and>
   (S_array (projr (forward By_Value (matrix_of [((0, 1), 1), ((1, 2), 1)]) 3 (Indices [0]) 1)) ! 0)
      1 0 = Some True \<and>
   (S_array (projr (forward By_Value (matrix_of [((0, 1), 1), ((1, 2), 1)]) 3 (Indices [0]) 1)) ! 1)
      1 0 \<noteq> Some True"
proof -
  let ?f = "forward By_Value (matrix_of [((0, 1), 1), ((1, 2), 1)]) 3 (Indices [0]) 1"
  have "\<not> isl ?f" by code_simp
  then have run: "?f = Inr (projr ?f)" by simp
  have dep: "depth (projr ?f) = 2" by code_simp
  have one: "(S_array (projr ?f) ! 0) 1 0 = Some True" by code_simp
  have "(S_array (projr ?f) ! 1) 1 0 \<noteq> Some True"
    using C2_single_discovery [OF run, of 0 1 1 0] dep one by auto
  with run dep one show ?thesis by blast
qed

subsection \<open>The initial state of the search\<close>

lemma concat_single:
  "concat (map (\<lambda>k. if P k \<and> k = j then [f k] else []) [0..<m]) =
     (if j < m \<and> P j then [f j] else [])"
  by (induction m) (auto simp: less_Suc_eq)

lemma build_ones:
  assumes "ns \<le> length I"
  shows "concat (map (\<lambda>k. if I ! k = i \<and> [0..<ns] ! k = j then [replicate ns (1::int) ! k] else [])
            [0..<ns]) = (if j < ns \<and> I ! j = i then [1] else [])"
proof -
  have "concat (map (\<lambda>k. if I ! k = i \<and> [0..<ns] ! k = j then [replicate ns (1::int) ! k] else [])
            [0..<ns]) = concat (map (\<lambda>k. if I ! k = i \<and> k = j then [1::int] else []) [0..<ns])"
    by (rule arg_cong [where f = concat], rule map_cong) auto
  also have "\<dots> = (if j < ns \<and> I ! j = i then [1] else [])"
    using concat_single [of "\<lambda>k. I ! k = i" j "\<lambda>k. 1::int" ns] by simp
  finally show ?thesis .
qed

lemma valid_sources_less:
  assumes "valid_sources n srcs ns" and "k < ns"
  shows "source_at srcs k < n"
proof (cases srcs)
  case GrB_ALL
  with assms show ?thesis by (simp add: valid_sources_def source_at_def)
next
  case (Indices s)
  with assms have len: "ns \<le> length s" and ok: "\<forall>c \<in> set (take ns s). c < n"
    by (simp_all add: valid_sources_def)
  from len assms(2) have "take ns s ! k \<in> set (take ns s)" by (intro nth_mem) simp
  with assms(2) ok show ?thesis by (simp add: source_at_def Indices)
qed

lemma init_paths_valid:
  assumes "valid_sources n srcs ns"
  shows "init_paths n srcs ns =
     Inr (\<lambda>i j. if j < ns \<and> source_at srcs j = i then Some 1 else None)"
proof (cases srcs)
  case GrB_ALL
  with assms have ns: "ns = n" by (simp add: valid_sources_def)
  have "\<not> (\<exists>i\<in>set (take n [0..<n]). n \<le> i)" by auto
  then show ?thesis
    using build_ones [of n "[0..<n]"]
    by (simp add: init_paths_def GrB_ALL ns GrB_Matrix_build_def LAGRAPH_OK_def source_at_def
        reduce_list_def cong: if_cong) (intro ext, auto)
next
  case (Indices s)
  with assms have len: "ns \<le> length s" and ok: "\<forall>c \<in> set (take ns s). c < n"
    by (simp_all add: valid_sources_def)
  from ok have "\<not> (\<exists>i\<in>set (take ns s). n \<le> i)" by auto
  with len show ?thesis
    using build_ones [OF len]
    by (simp add: init_paths_def Indices GrB_Matrix_build_def LAGRAPH_OK_def source_at_def
        reduce_list_def cong: if_cong) (intro ext, auto)
qed

lemma bfs_init_valid:
  assumes "valid_sources n srcs ns"
  shows "\<exists>st0. bfs_init r A n srcs ns = Inr st0"
proof -
  have "\<exists>f0. init_frontier r A n srcs ns p0 = Inr f0" for p0
  proof (cases srcs)
    case GrB_ALL
    with assms show ?thesis
      by (simp add: init_frontier_def GrB_extract_def LAGRAPH_OK_def valid_sources_def)
  next
    case (Indices s)
    with assms have "\<not> (\<exists>c \<in> set (take ns s). n \<le> c)"
      by (auto simp: valid_sources_def)
    with Indices show ?thesis
      by (simp add: init_frontier_def GrB_extract_def LAGRAPH_OK_def)
  qed
  then obtain f0 where
    "init_frontier r A n srcs ns
       (\<lambda>i j. if j < ns \<and> source_at srcs j = i then Some 1 else None) = Inr f0"
    by blast
  then show ?thesis
    by (simp add: bfs_init_def init_paths_valid [OF assms])
qed

lemma bfs_init_sources:
  assumes "bfs_init r A n srcs ns = Inr st0"
  shows "valid_sources n srcs ns"
proof -
  from assms obtain p0 f0 where p0: "init_paths n srcs ns = Inr p0"
    and f0: "init_frontier r A n srcs ns p0 = Inr f0"
    by (auto simp: bfs_init_def split: sum.splits)
  show ?thesis
  proof (cases srcs)
    case GrB_ALL
    with f0 show ?thesis
      by (auto simp: init_frontier_def GrB_extract_def LAGRAPH_OK_def valid_sources_def
          split: if_splits)
  next
    case (Indices s)
    with p0 f0 show ?thesis
      by (auto simp: init_paths_def init_frontier_def GrB_extract_def GrB_Matrix_build_def
          LAGRAPH_OK_def valid_sources_def not_le split: if_splits)
  qed
qed

lemma bfs_init_state:
  assumes "bfs_init r A n srcs ns = Inr st0"
  shows "paths st0 i j = (if j < ns \<and> source_at srcs j = i then Some 1 else None)"
    and "frontier st0 i j =
      (if j < ns \<and> \<not> as_mask r cast_BOOL (paths st0) i j
       then map_option wrap64 (A (source_at srcs j) i) else None)"
    and "S_array st0 = []" and "depth st0 = 0"
proof -
  note v = bfs_init_sources [OF assms]
  from assms obtain p0 f0 where p0: "init_paths n srcs ns = Inr p0"
    and f0: "init_frontier r A n srcs ns p0 = Inr f0"
    and st0: "st0 = \<lparr>paths = p0, frontier = f0, S_array = [], depth = 0\<rparr>"
    by (auto simp: bfs_init_def split: sum.splits)
  from p0 have p0': "p0 = (\<lambda>i j. if j < ns \<and> source_at srcs j = i then Some 1 else None)"
    by (simp add: init_paths_valid [OF v])
  show "paths st0 i j = (if j < ns \<and> source_at srcs j = i then Some 1 else None)"
    by (simp add: st0 p0')
  show "S_array st0 = []" "depth st0 = 0" by (simp_all add: st0)
  show "frontier st0 i j =
      (if j < ns \<and> \<not> as_mask r cast_BOOL (paths st0) i j
       then map_option wrap64 (A (source_at srcs j) i) else None)"
  proof (cases srcs)
    case GrB_ALL
    with v have "ns = n" by (simp add: valid_sources_def)
    with f0 GrB_ALL show ?thesis
      by (auto simp: st0 init_frontier_def GrB_extract_def LAGRAPH_OK_def GrB_write_def
          masked_def desc_tsr_def accum_entry_def cast_INT64_def source_at_def)
  next
    case (Indices s)
    with f0 show ?thesis
      by (auto simp: st0 init_frontier_def GrB_extract_def LAGRAPH_OK_def GrB_write_def
          masked_def desc_tsr_def accum_entry_def cast_INT64_def source_at_def
          split: if_splits)
  qed
qed

subsection \<open>The backward loop and a search without out-edges\<close>

lemma products_Nil:
  "(\<forall>k<n. a k = None \<or> b k = None) \<Longrightarrow> products n mul a b = []"
  by (auto simp: products_def split: option.splits)

lemma backward_loop_nonpos: "i \<le> 0 \<Longrightarrow> backward_loop r A n st i bs = bs"
  by (subst backward_loop.simps) simp

lemma backward_loop_inv:
  assumes "P bs"
    and "\<And>k b. 0 < k \<Longrightarrow> k \<le> i \<Longrightarrow> P b \<Longrightarrow> P (backward_step r A n st (nat k) b)"
  shows "P (backward_loop r A n st i bs)"
  using assms
proof (induction r A n st i bs rule: backward_loop.induct)
  case (1 r A n st i bs)
  show ?case
  proof (cases "0 < i")
    case True
    have "P (backward_step r A n st (nat i) bs)" using "1.prems" True by simp
    then have "P (backward_loop r A n st (i - 1) (backward_step r A n st (nat i) bs))"
      using "1.IH" [OF True] "1.prems"(2) by simp
    with True show ?thesis by (subst backward_loop.simps) simp
  next
    case False
    with "1.prems"(1) show ?thesis by (simp add: backward_loop_nonpos)
  qed
qed

lemma wrap32_le: "0 \<le> x \<Longrightarrow> wrap32 x \<le> x"
proof -
  assume "0 \<le> x"
  then have "(x + 2 ^ 31) mod 2 ^ 32 \<le> x + 2 ^ 31"
    by (intro zmod_le_nonneg_dividend) simp
  then show ?thesis by (simp add: wrap32_def)
qed

lemma bc_share_entry:
  "bc_share r st i bs a b =
     (if as_mask r id (S_array st ! i) a b
      then (case bc_update bs a b of None \<Rightarrow> None
            | Some x \<Rightarrow> (case inv_paths st a b of None \<Rightarrow> None
                          | Some y \<Rightarrow> Some (GrB_TIMES_FP64 x y)))
      else None)"
  by (simp add: bc_share_def GrB_eWiseMult_def GrB_write_def masked_def replace_def
      accum_entry_def)

lemma bc_propagate_entry:
  "bc_propagate r A n st i t a b =
     (if as_mask r id (S_array st ! (i - 1)) a b
      then reduce_list GrB_PLUS_FP64
             (products n GrB_TIMES_FP64 (\<lambda>k. cast_FP64 A a k) (\<lambda>k. t k b))
      else None)"
  by (simp add: bc_propagate_def GrB_mxm_def GrB_write_def masked_def replace_def
      accum_entry_def)

lemma bc_accumulate_entry:
  "bc_accumulate st bc t a b =
     (case (case t a b of None \<Rightarrow> None
            | Some x \<Rightarrow> (case cast_FP64 (paths st) a b of None \<Rightarrow> None
                          | Some y \<Rightarrow> Some (GrB_TIMES_FP64 x y))) of
        None \<Rightarrow> bc a b
      | Some z \<Rightarrow> (case bc a b of None \<Rightarrow> Some z | Some x \<Rightarrow> Some (GrB_PLUS_FP64 x z)))"
  by (simp add: bc_accumulate_def GrB_eWiseMult_def GrB_write_def masked_def GrB_NULL_def
      accum_entry_def split: option.splits)

lemma inv_paths_entry:
  "inv_paths st a b = map_option (\<lambda>v. GrB_MINV_FP64 (Finite (of_int v))) (paths st a b)"
  by (simp add: inv_paths_def GrB_apply_def GrB_write_def masked_def GrB_NULL_def
      accum_entry_def cast_FP64_def option.map_comp comp_def)

lemma backward_step_sel [simp]:
  "bc_update (backward_step r A n st i bs) =
     bc_accumulate st (bc_update bs) (bc_propagate r A n st i (bc_share r st i bs))"
  "temp (backward_step r A n st i bs) = bc_propagate r A n st i (bc_share r st i bs)"
  by (simp_all add: backward_step_def)

lemma init_bc_entry:
  "bc_update (init_bc n ns) a b = (if a < n \<and> b < ns then Some (Finite 1) else None)"
  by (simp add: init_bc_def GrB_assign_def GrB_Matrix_new_def)

text \<open>
C6, amended: when no selected source has an outgoing edge, the forward phase ends
  after one pass of the \<open>do\<close> loop with \<open>depth = 1\<close>, having recorded one depth matrix,
  which has no entry, and the backward loop does not run (the dependency matrix stays
  as initialised).
\<close>

theorem C6_sourceless:
  assumes "valid_sources n srcs ns" and "0 < n" and "sourceless A n srcs ns"
  shows "\<exists>st. forward r A n srcs ns = Inr st \<and> depth st = 1 \<and> length (S_array st) = 1 \<and>
           GrB_Matrix_nvals n ns (S_array st ! 0) = 0 \<and>
           backward r A n ns st = init_bc n ns"
proof -
  from bfs_init_valid [OF assms(1)] obtain st0 where st0: "bfs_init r A n srcs ns = Inr st0"
    by blast
  note init = bfs_init_state [OF st0]
  have f0: "frontier st0 i j = None" if "i < n" "j < ns" for i j
    using that assms(3) by (simp add: init(2) sourceless_def)
  let ?st = "bfs_body r A n st0"
  have "next_frontier r A n st0 i j = None" if "i < n" "j < ns" for i j
    using that f0 by (simp add: next_frontier_entry products_Nil reduce_list_def)
  then have "GrB_Matrix_nvals n ns (frontier ?st) = 0"
    by (simp add: nvals_zero_iff)
  with assms(2) have run: "bfs_loop r A n ns st0 = Inr ?st"
    by (subst bfs_loop.simps) (simp add: init(4))
  have "(S_array ?st ! 0) i j = None" if "i < n" "j < ns" for i j
    using that f0 S_array_body_nth(2) [of r A n st0 i j] by (simp add: init(3))
  then have empty: "GrB_Matrix_nvals n ns (S_array ?st ! 0) = 0"
    by (simp add: nvals_zero_iff)
  have "backward r A n ns ?st = init_bc n ns"
    by (simp add: backward_def init(4) wrap32_def backward_loop_nonpos)
  with run empty show ?thesis
    by (simp add: forward_def st0 init(3,4))
qed

text \<open>
C6, as stated, at a concrete input: two nodes, no edge, source 0. The loop body runs
  once, so that the depth is 1 and one depth matrix is recorded, not 0 and none.
\<close>

theorem C6_counterexample:
  "\<not> isl (forward By_Value (matrix_of []) 2 (Indices [0]) 1) \<and>
   depth (projr (forward By_Value (matrix_of []) 2 (Indices [0]) 1)) = 1 \<and>
   length (S_array (projr (forward By_Value (matrix_of []) 2 (Indices [0]) 1))) = 1"
  by code_simp

theorem C6_sourceless_witness:
  "valid_sources 2 (Indices [0]) 1 \<and> sourceless (matrix_of []) 2 (Indices [0]) 1 \<and>
   (\<exists>st. forward By_Value (matrix_of []) 2 (Indices [0]) 1 = Inr st \<and> depth st = 1 \<and>
      length (S_array st) = 1 \<and> GrB_Matrix_nvals 2 1 (S_array st ! 0) = 0 \<and>
      backward By_Value (matrix_of []) 2 1 st = init_bc 2 1)"
proof -
  have v: "valid_sources 2 (Indices [0]) 1" by code_simp
  have s: "sourceless (matrix_of []) 2 (Indices [0]) 1" by code_simp
  have n: "(0::nat) < 2" by simp
  from v s C6_sourceless [OF v n s, of By_Value] show ?thesis by blast
qed

subsection \<open>The result vector\<close>

lemma fp_plus_zero [simp]: "GrB_PLUS_FP64 (Finite 0) x = x"
  by (cases x) simp_all

lemma fp_sum_Cons: "fp_sum (x # xs) = foldl GrB_PLUS_FP64 x xs"
  by (simp add: fp_sum_def)

lemma stored_row:
  assumes "\<forall>j<m. M i j = Some (row ! j)" and "length row = m"
  shows "concat (map (\<lambda>j. case M i j of None \<Rightarrow> [] | Some x \<Rightarrow> [x]) [0..<m]) = row"
proof -
  have "concat (map (\<lambda>j. case M i j of None \<Rightarrow> [] | Some x \<Rightarrow> [x]) [0..<m])
      = concat (map (\<lambda>j. [row ! j]) [0..<m])"
    using assms(1) by (intro arg_cong [where f = concat] map_cong) auto
  also have "\<dots> = map (\<lambda>j. row ! j) [0..<m]"
    by (induction m) simp_all
  also have "\<dots> = row"
    unfolding assms(2) [symmetric] by (rule map_nth)
  finally show ?thesis .
qed

lemma excess_bits_small: "k < 16777216 \<Longrightarrow> excess_bits k = 0"
  by (simp add: excess_bits.simps)

lemma cast_float_id: "\<bar>k\<bar> < 16777216 \<Longrightarrow> cast_float k = k"
  by (simp add: cast_float_def excess_bits_small mult_sgn_abs)

lemma cast_float_nat: "ns \<le> 2 ^ 24 \<Longrightarrow> cast_float (int ns) = int ns"
proof (cases "ns = 2 ^ 24")
  case True
  have "cast_float 16777216 = 16777216"
    by (simp add: cast_float_def excess_bits.simps)
  with True show ?thesis by simp
next
  case False
  assume "ns \<le> 2 ^ 24"
  with False have "\<bar>int ns\<bar> < 16777216" by simp
  then show ?thesis by (rule cast_float_id)
qed

lemma cast_float_above: "cast_float 16777217 = 16777216"
  by (simp add: cast_float_def excess_bits.simps)

lemma centrality_of_row:
  assumes "\<forall>j<ns. bc_update bs i j = Some (row ! j)" and "length row = ns" and "i < n"
  shows "centrality_of n ns bs i =
           Some (GrB_PLUS_FP64 (Finite (of_int (- cast_float (int ns)))) (fp_sum row))"
proof (cases row)
  case Nil
  with assms(2) have "ns = 0" by simp
  with assms(3) Nil show ?thesis
    by (simp add: centrality_of_def GrB_reduce_def GrB_Vector_assign_def reduce_list_def
        accum_entry_def fp_sum_def cast_float_id)
next
  case (Cons x xs)
  with assms(3) show ?thesis
    by (simp add: centrality_of_def GrB_reduce_def GrB_Vector_assign_def reduce_list_def
        accum_entry_def stored_row [where M = "bc_update bs", OF assms(1,2)] fp_sum_Cons)
qed

lemma bc_accumulate_stored:
  "bc a b \<noteq> None \<Longrightarrow> bc_accumulate st bc t a b \<noteq> None"
  by (auto simp: bc_accumulate_entry split: option.splits)

lemma backward_dense:
  assumes "a < n" and "b < ns"
  shows "bc_update (backward r A n ns st) a b \<noteq> None"
  unfolding backward_def
  by (rule backward_loop_inv [where P = "\<lambda>bs. bc_update bs a b \<noteq> None"])
     (simp_all add: init_bc_entry assms bc_accumulate_stored)

text \<open>
On a successful run, entry \<open>i\<close> of the result is the offset of line 245, which is
  \<open>-(float)num_sources\<close>, plus the sum over the source columns of row \<open>i\<close> of
  \<open>bc_update\<close>, every entry of which is stored. Up to \<open>2^24\<close> sources the offset is
  \<open>-num_sources\<close>.
\<close>

lemma reduction_result:
  assumes "LAGraph_bc_batch r A n srcs ns = Inr c" and "i < n"
  shows "\<exists>st row. forward r A n srcs ns = Inr st \<and> length row = ns \<and>
           (\<forall>j<ns. bc_update (backward r A n ns st) i j = Some (row ! j)) \<and>
           c i = Some (GrB_PLUS_FP64 (Finite (of_int (- cast_float (int ns)))) (fp_sum row))"
proof -
  from assms(1) obtain st where st: "forward r A n srcs ns = Inr st"
    and c: "c = centrality_of n ns (backward r A n ns st)"
    by (auto simp: LAGraph_bc_batch_def split: sum.splits)
  let ?bs = "backward r A n ns st"
  let ?row = "map (\<lambda>j. the (bc_update ?bs i j)) [0..<ns]"
  have row: "\<forall>j<ns. bc_update ?bs i j = Some (?row ! j)"
    using backward_dense [OF assms(2), of _ ns r A st] by auto
  have "c i = Some (GrB_PLUS_FP64 (Finite (of_int (- cast_float (int ns)))) (fp_sum ?row))"
    unfolding c by (rule centrality_of_row [OF row _ assms(2)]) simp
  with st row show ?thesis
    by (intro exI [of _ st] exI [of _ ?row]) simp
qed

lemma reduction_exact:
  assumes "LAGraph_bc_batch r A n srcs ns = Inr c" and "i < n" and "ns \<le> 2 ^ 24"
  shows "\<exists>st row. forward r A n srcs ns = Inr st \<and> length row = ns \<and>
           (\<forall>j<ns. bc_update (backward r A n ns st) i j = Some (row ! j)) \<and>
           c i = Some (GrB_PLUS_FP64 (Finite (- of_nat ns)) (fp_sum row))"
  using reduction_result [OF assms(1,2)] by (simp add: cast_float_nat [OF assms(3)])

subsection \<open>Isolated nodes\<close>

lemma isolated_column: "isolated A n i \<Longrightarrow> k < n \<Longrightarrow> A k i = None"
  by (simp add: isolated_def)

lemma untouched_init:
  assumes "bfs_init r A n srcs ns = Inr st0" and "isolated A n i"
  shows "untouched ns i st0"
  using valid_sources_less [OF bfs_init_sources [OF assms(1)]] isolated_column [OF assms(2)]
  by (simp add: untouched_def bfs_init_state [OF assms(1)])

lemma untouched_body:
  assumes "isolated A n i" and "untouched ns i st"
  shows "untouched ns i (bfs_body r A n st)"
proof -
  have "products n GrB_TIMES_INT64 (\<lambda>k. cast_INT64 A k i) (\<lambda>k. frontier st k j) = []" for j
    using isolated_column [OF assms(1)] by (intro products_Nil) (simp add: cast_INT64_def)
  then have 1: "\<forall>j<ns. frontier (bfs_body r A n st) i j = None"
    by (simp add: next_frontier_entry reduce_list_def)
  have 2: "(S_array (bfs_body r A n st) ! d) i j = None"
    if "d < length (S_array (bfs_body r A n st))" "j < ns" for d j
  proof (cases "d < length (S_array st)")
    case True
    with assms(2) that show ?thesis by (simp add: S_array_body_nth untouched_def)
  next
    case False
    with that have "d = length (S_array st)" by simp
    with assms(2) that show ?thesis by (simp add: S_array_body_nth untouched_def)
  qed
  from 1 2 show ?thesis unfolding untouched_def by blast
qed

lemma forward_length:
  assumes "forward r A n srcs ns = Inr st"
  shows "length (S_array st) = depth st"
proof -
  from assms obtain st0 where st0: "bfs_init r A n srcs ns = Inr st0"
    and loop: "bfs_loop r A n ns st0 = Inr st"
    by (auto simp: forward_def split: sum.splits)
  show ?thesis
    using loop
    by (rule bfs_loop_inv [where P = "\<lambda>s. length (S_array s) = depth s"])
       (simp_all add: bfs_init_state [OF st0])
qed

lemma fp_sum_ones: "fp_sum (replicate m (Finite 1)) = Finite (of_nat m)"
proof -
  have "foldl GrB_PLUS_FP64 (Finite x) (replicate m (Finite 1)) = Finite (x + of_nat m)" for x
    by (induction m arbitrary: x) (simp_all add: algebra_simps)
  from this [of 0] show ?thesis by (simp add: fp_sum_def)
qed

text \<open>
On a successful run, row \<open>i\<close> of the dependency matrix of a node without incident
  edges stays at its initial ones, so that its result is \<open>num_sources\<close> minus
  \<open>(float)num_sources\<close>: 0 up to \<open>2^24\<close> sources.
\<close>

lemma isolated_row:
  assumes st: "forward r A n srcs ns = Inr st" and "i < n" and "isolated A n i"
  shows "\<forall>j<ns. bc_update (backward r A n ns st) i j = Some (Finite 1)"
proof -
  from st obtain st0 where st0: "bfs_init r A n srcs ns = Inr st0"
    and loop: "bfs_loop r A n ns st0 = Inr st"
    by (auto simp: forward_def split: sum.splits)
  have "untouched ns i st"
    using loop untouched_init [OF st0 assms(3)]
    by (rule bfs_loop_inv [where P = "untouched ns i"]) (rule untouched_body [OF assms(3)])
  then have S: "\<And>d j. d < depth st \<Longrightarrow> j < ns \<Longrightarrow> (S_array st ! d) i j = None"
    by (simp add: untouched_def forward_length [OF st])
  have keep: "bc_update (backward_step r A n st (nat k) b) i j = Some (Finite 1)"
    if "0 < k" "k \<le> wrap32 (int (depth st) - 1)" "bc_update b i j = Some (Finite 1)" "j < ns"
    for k b j
  proof -
    have "depth st \<noteq> 0"
    proof
      assume "depth st = 0"
      then have "wrap32 (int (depth st) - 1) = - 1" by (simp add: wrap32_def)
      with that(1,2) show False by simp
    qed
    then have "wrap32 (int (depth st) - 1) \<le> int (depth st) - 1"
      by (intro wrap32_le) simp
    with that(1,2) have "nat k - 1 < depth st" by linarith
    with S that(4) have "(S_array st ! (nat k - 1)) i j = None" by blast
    then show ?thesis
      using that(3) by (simp add: bc_accumulate_entry bc_propagate_entry as_mask_def)
  qed
  show ?thesis
    unfolding backward_def
  proof (rule backward_loop_inv [where P = "\<lambda>bs. \<forall>j<ns. bc_update bs i j = Some (Finite 1)"])
    show "\<forall>j<ns. bc_update (init_bc n ns) i j = Some (Finite 1)"
      by (simp add: init_bc_entry assms(2))
  next
    fix k and b :: bc_state
    assume "0 < k" "k \<le> wrap32 (int (depth st) - 1)"
      "\<forall>j<ns. bc_update b i j = Some (Finite 1)"
    then show "\<forall>j<ns. bc_update (backward_step r A n st (nat k) b) i j = Some (Finite 1)"
      using keep by blast
  qed
qed

lemma isolated_result:
  assumes "LAGraph_bc_batch r A n srcs ns = Inr c" and "i < n" and "isolated A n i"
  shows "c i = Some (Finite (of_int (- cast_float (int ns)) + of_nat ns))"
proof -
  from assms(1) obtain st where st: "forward r A n srcs ns = Inr st"
    and c: "c = centrality_of n ns (backward r A n ns st)"
    by (auto simp: LAGraph_bc_batch_def split: sum.splits)
  note ones = isolated_row [OF st assms(2,3)]
  have "c i = Some (GrB_PLUS_FP64 (Finite (of_int (- cast_float (int ns))))
      (fp_sum (replicate ns (Finite 1))))"
    unfolding c using ones by (intro centrality_of_row assms(2)) simp_all
  then show ?thesis by (simp add: fp_sum_ones)
qed

lemma isolated_zero:
  assumes "LAGraph_bc_batch r A n srcs ns = Inr c" and "i < n" and "isolated A n i"
    and "ns \<le> 2 ^ 24"
  shows "c i = Some (Finite 0)"
  using isolated_result [OF assms(1-3)] by (simp add: cast_float_nat [OF assms(4)])

subsection \<open>The offset above \<open>2^24\<close> sources\<close>

text \<open>
The search of a graph without edges ends after its first pass.
\<close>

lemma edgeless_forward:
  assumes "valid_sources n srcs ns" and "0 < n"
  shows "\<exists>st. forward r (matrix_of []) n srcs ns = Inr st"
proof -
  let ?A = "matrix_of []"
  from bfs_init_valid [OF assms(1)] obtain st0 where st0: "bfs_init r ?A n srcs ns = Inr st0"
    by blast
  note init = bfs_init_state [OF st0]
  have "next_frontier r ?A n st0 i j = None" for i j
    by (simp add: next_frontier_entry products_Nil reduce_list_def cast_INT64_def matrix_of_def)
  then have "GrB_Matrix_nvals n ns (frontier (bfs_body r ?A n st0)) = 0"
    by (simp add: nvals_zero_iff)
  with assms(2) have "bfs_loop r ?A n ns st0 = Inr (bfs_body r ?A n st0)"
    by (subst bfs_loop.simps) (simp add: init(4))
  then show ?thesis by (simp add: forward_def st0)
qed

lemma edgeless_isolated: "isolated (matrix_of []) n i"
  by (simp add: isolated_def matrix_of_def)

lemma edgeless_run:
  assumes "0 < n" and "i < n"
  shows "\<not> isl (LAGraph_bc_batch r (matrix_of []) n GrB_ALL n)"
    and "projr (LAGraph_bc_batch r (matrix_of []) n GrB_ALL n) i =
           Some (Finite (of_int (- cast_float (int n)) + of_nat n))"
    and "map (bc_update (backward r (matrix_of []) n n
            (projr (forward r (matrix_of []) n GrB_ALL n))) i) [0..<n]
         = replicate n (Some (Finite 1))"
proof -
  have v: "valid_sources n GrB_ALL n" by (simp add: valid_sources_def)
  from edgeless_forward [OF v assms(1)] obtain st
    where st: "forward r (matrix_of []) n GrB_ALL n = Inr st" by blast
  then have run: "LAGraph_bc_batch r (matrix_of []) n GrB_ALL n
      = Inr (centrality_of n n (backward r (matrix_of []) n n st))"
    by (simp add: LAGraph_bc_batch_def)
  then show "\<not> isl (LAGraph_bc_batch r (matrix_of []) n GrB_ALL n)" by simp
  from isolated_result [OF run assms(2) edgeless_isolated] run
  show "projr (LAGraph_bc_batch r (matrix_of []) n GrB_ALL n) i =
           Some (Finite (of_int (- cast_float (int n)) + of_nat n))"
    by simp
  from isolated_row [OF st assms(2) edgeless_isolated]
  have "map (bc_update (backward r (matrix_of []) n n st) i) [0..<n]
      = replicate n (Some (Finite 1))"
    by (simp add: list_eq_iff_nth_eq)
  with st show "map (bc_update (backward r (matrix_of []) n n
            (projr (forward r (matrix_of []) n GrB_ALL n))) i) [0..<n]
         = replicate n (Some (Finite 1))"
    by simp
qed

text \<open>
C7 at a concrete input: the graph with \<open>2^24 + 1 = 16777217\<close> nodes and no edge, all
  nodes as sources. Every node is isolated. Line 245 assigns \<open>-(float)16777217\<close>, which
  is \<open>-16777216\<close>, and the 16777217 ones of a row of \<open>bc_update\<close> are added to it, so
  that the result of node 0 is 1 and not 0.
\<close>

theorem C7_float_offset:
  "\<not> isl (LAGraph_bc_batch By_Value (matrix_of []) 16777217 GrB_ALL 16777217) \<and>
   projr (LAGraph_bc_batch By_Value (matrix_of []) 16777217 GrB_ALL 16777217) 0
     = Some (Finite 1)"
proof -
  have n: "(0::nat) < 16777217" by simp
  have "(of_int (- cast_float (int 16777217)) + of_nat 16777217 :: rat) = 1"
    by (simp add: cast_float_above)
  with edgeless_run(1,2) [OF n n, of By_Value] show ?thesis by simp
qed

text \<open>
C8 at the same input, for node 1: every entry of row 1 of \<open>bc_update\<close> is 1, so that
  \<open>-num_sources\<close> plus the sum over the source columns is 0; the result is 1, the sum
  added to the offset \<open>-16777216\<close> that line 245 assigns.
\<close>

theorem C8_float_offset:
  "\<not> isl (LAGraph_bc_batch By_Value (matrix_of []) 16777217 GrB_ALL 16777217) \<and>
   map (bc_update (backward By_Value (matrix_of []) 16777217 16777217
          (projr (forward By_Value (matrix_of []) 16777217 GrB_ALL 16777217))) 1) [0..<16777217]
     = replicate 16777217 (Some (Finite 1)) \<and>
   GrB_PLUS_FP64 (Finite (- 16777217)) (fp_sum (replicate 16777217 (Finite 1))) = Finite 0 \<and>
   GrB_PLUS_FP64 (Finite (- 16777216)) (fp_sum (replicate 16777217 (Finite 1))) = Finite 1 \<and>
   projr (LAGraph_bc_batch By_Value (matrix_of []) 16777217 GrB_ALL 16777217) 1
     = Some (Finite 1)"
proof -
  have n: "(0::nat) < 16777217" "(1::nat) < 16777217" by simp_all
  have e: "(of_int (- cast_float (int 16777217)) + of_nat 16777217 :: rat) = 1"
    by (simp add: cast_float_above)
  have 1: "\<not> isl (LAGraph_bc_batch By_Value (matrix_of []) 16777217 GrB_ALL 16777217)"
    by (rule edgeless_run(1) [OF n])
  have 2: "map (bc_update (backward By_Value (matrix_of []) 16777217 16777217
          (projr (forward By_Value (matrix_of []) 16777217 GrB_ALL 16777217))) 1) [0..<16777217]
     = replicate 16777217 (Some (Finite 1))"
    by (rule edgeless_run(3) [OF n])
  have 3: "GrB_PLUS_FP64 (Finite (- 16777217)) (fp_sum (replicate 16777217 (Finite 1))) = Finite 0"
    "GrB_PLUS_FP64 (Finite (- 16777216)) (fp_sum (replicate 16777217 (Finite 1))) = Finite 1"
    unfolding fp_sum_ones by simp_all
  have 4: "projr (LAGraph_bc_batch By_Value (matrix_of []) 16777217 GrB_ALL 16777217) 1
     = Some (Finite 1)"
    unfolding edgeless_run(2) [OF n] e ..
  from 1 2 3 4 show ?thesis by blast
qed

subsection \<open>The search loop: path counts, termination and depth\<close>

lemma products_Suc:
  "products (Suc n) mul a b = products n mul a b @
     (case a n of None \<Rightarrow> [] | Some x \<Rightarrow> (case b n of None \<Rightarrow> [] | Some y \<Rightarrow> [mul x y]))"
  by (simp add: products_def)

lemma products_stored:
  "products n mul a b \<noteq> [] \<Longrightarrow> \<exists>k<n. a k \<noteq> None \<and> b k \<noteq> None"
  by (rule ccontr) (simp add: products_Nil)

lemma products_exact:
  assumes "\<forall>k<n. \<forall>x. a k = Some x \<longrightarrow> 0 < x \<and> x < 2 ^ 63"
    and "\<forall>k<n. \<forall>y. b k = Some y \<longrightarrow> 0 < y"
    and "sum_list (products n (*) a b) < 2 ^ 63"
  shows "products n GrB_TIMES_INT64 (\<lambda>k. map_option wrap64 (a k)) b = products n (*) a b \<and>
         (\<forall>x \<in> set (products n (*) a b). 0 < x)"
  using assms
proof (induction n)
  case 0
  show ?case by (simp add: products_def)
next
  case (Suc n)
  let ?l = "case a n of None \<Rightarrow> [] | Some x \<Rightarrow> (case b n of None \<Rightarrow> [] | Some y \<Rightarrow> [x * y])"
  have lpos: "\<forall>x \<in> set ?l. 0 < x"
  proof (cases "a n")
    case None
    then show ?thesis by simp
  next
    case ax: (Some x)
    show ?thesis
    proof (cases "b n")
      case None
      with ax show ?thesis by simp
    next
      case (Some y)
      with ax Suc.prems(1,2) have "0 < x" "0 < y" by auto
      with ax Some show ?thesis by simp
    qed
  qed
  then have l0: "0 \<le> sum_list ?l" by (auto split: option.splits)
  have s: "sum_list (products n (*) a b) + sum_list ?l < 2 ^ 63"
    using Suc.prems(3) by (simp add: products_Suc)
  with l0 have "sum_list (products n (*) a b) < 2 ^ 63" by linarith
  moreover from Suc.prems(1) have "\<forall>k<n. \<forall>x. a k = Some x \<longrightarrow> 0 < x \<and> x < 2 ^ 63"
    by (simp add: less_Suc_eq)
  moreover from Suc.prems(2) have "\<forall>k<n. \<forall>y. b k = Some y \<longrightarrow> 0 < y"
    by (simp add: less_Suc_eq)
  ultimately have IH: "products n GrB_TIMES_INT64 (\<lambda>k. map_option wrap64 (a k)) b = products n (*) a b"
    and pos: "\<forall>x \<in> set (products n (*) a b). 0 < x"
    using Suc.IH by blast+
  from pos have p0: "0 \<le> sum_list (products n (*) a b)"
    by (intro sum_list_nonneg) auto
  have last: "(case map_option wrap64 (a n) of None \<Rightarrow> []
               | Some x \<Rightarrow> (case b n of None \<Rightarrow> [] | Some y \<Rightarrow> [GrB_TIMES_INT64 x y])) = ?l"
  proof (cases "a n")
    case None
    then show ?thesis by simp
  next
    case (Some x)
    with Suc.prems(1) have x: "0 < x" "x < 2 ^ 63" by auto
    then have wx: "wrap64 x = x" by (intro wrap64_id) (simp add: in64_def)
    show ?thesis
    proof (cases "b n")
      case None
      with Some show ?thesis by simp
    next
      case (Some y)
      with Suc.prems(2) have y: "0 < y" by auto
      from \<open>a n = Some x\<close> Some s p0 have "x * y < 2 ^ 63" by simp
      moreover from x y have "0 < x * y" by simp
      ultimately have "wrap64 (x * y) = x * y" by (intro wrap64_id) (simp add: in64_def)
      with \<open>a n = Some x\<close> Some wx show ?thesis by (simp add: GrB_TIMES_INT64_def)
    qed
  qed
  have "products (Suc n) GrB_TIMES_INT64 (\<lambda>k. map_option wrap64 (a k)) b
      = products n (*) a b @ ?l"
    by (simp only: products_Suc IH last)
  moreover have "products (Suc n) (*) a b = products n (*) a b @ ?l"
    by (simp only: products_Suc)
  moreover have "\<forall>x \<in> set (products n (*) a b @ ?l). 0 < x"
    using pos lpos by (simp only: set_append ball_Un)
  ultimately show ?case by metis
qed

lemma foldl_plus_exact:
  assumes "0 < x" and "\<forall>y \<in> set ys. 0 < y" and "x + sum_list ys < 2 ^ 63"
  shows "foldl GrB_PLUS_INT64 x ys = x + sum_list ys"
  using assms
proof (induction ys arbitrary: x)
  case Nil
  then show ?case by simp
next
  case (Cons y ys)
  then have "0 \<le> sum_list ys" by (intro sum_list_nonneg) auto
  with Cons.prems have "0 < x + y" "x + y < 2 ^ 63" by auto
  then have w: "wrap64 (x + y) = x + y" by (intro wrap64_id) (simp add: in64_def)
  from Cons.prems \<open>0 < x + y\<close> have "foldl GrB_PLUS_INT64 (x + y) ys = x + y + sum_list ys"
    by (intro Cons.IH) (auto simp: add.assoc)
  moreover have "GrB_PLUS_INT64 x y = x + y"
    using w by (simp add: GrB_PLUS_INT64_def)
  ultimately show ?case by (simp add: add.assoc)
qed

lemma reduce_plus_exact:
  assumes "\<forall>y \<in> set xs. 0 < y" and "sum_list xs < 2 ^ 63"
  shows "reduce_list GrB_PLUS_INT64 xs = (if xs = [] then None else Some (sum_list xs))"
    and "xs \<noteq> [] \<Longrightarrow> 0 < sum_list xs"
proof -
  show "reduce_list GrB_PLUS_INT64 xs = (if xs = [] then None else Some (sum_list xs))"
  proof (cases xs)
    case Nil
    then show ?thesis by (simp add: reduce_list_def)
  next
    case (Cons x ys)
    with assms show ?thesis by (simp add: reduce_list_def foldl_plus_exact)
  qed
  show "0 < sum_list xs" if "xs \<noteq> []"
  proof (cases xs)
    case Nil
    with that show ?thesis by simp
  next
    case (Cons x ys)
    with assms(1) have "0 < x" "0 \<le> sum_list ys" by (auto intro!: sum_list_nonneg)
    with Cons show ?thesis by simp
  qed
qed

lemma next_frontier_positive:
  assumes "positive_weights A n" and "fits A n ns st" and "positive n ns st"
    and "i < n" and "j < ns" and "next_frontier r A n st i j = Some v"
  shows "0 < v"
proof -
  let ?a = "\<lambda>k. A k i" and ?b = "\<lambda>k. frontier st k j"
  have a: "\<forall>k<n. \<forall>x. ?a k = Some x \<longrightarrow> 0 < x \<and> x < 2 ^ 63"
    using assms(1,4) by (auto simp: positive_weights_def split: option.splits)
  have b: "\<forall>k<n. \<forall>y. ?b k = Some y \<longrightarrow> 0 < y"
    using assms(3,5) by (auto simp: positive_def)
  have s: "sum_list (products n (*) ?a ?b) < 2 ^ 63"
    using assms(2,4,5) by (simp add: fits_def)
  note ex = products_exact [OF a b s]
  have "products n GrB_TIMES_INT64 (\<lambda>k. cast_INT64 A k i) ?b = products n (*) ?a ?b"
    using ex by (simp add: cast_INT64_def)
  with assms(6) have "reduce_list GrB_PLUS_INT64 (products n (*) ?a ?b) = Some v"
    by (simp add: next_frontier_entry split: if_splits)
  with reduce_plus_exact [of "products n (*) ?a ?b"] ex s show ?thesis
    by (auto split: if_splits)
qed

lemma positive_body:
  assumes "positive_weights A n" and "fits A n ns st" and "positive n ns st"
    and "layered n ns st"
  shows "positive n ns (bfs_body r A n st)"
proof -
  have "0 < v" if "i < n" "j < ns" "next_paths st i j = Some v" for i j v
  proof (cases "frontier st i j")
    case None
    with that assms(3) show ?thesis
      by (auto simp: next_paths_entry positive_def split: option.splits)
  next
    case (Some y)
    with that assms(4) have "paths st i j = None" by (auto simp: layered_def)
    with that Some assms(3) show ?thesis
      by (auto simp: next_paths_entry positive_def)
  qed
  moreover have "0 < v" if "i < n" "j < ns" "next_frontier r A n st i j = Some v" for i j v
    using next_frontier_positive [OF assms(1-3) that] .
  ultimately show ?thesis unfolding positive_def by simp
qed

lemma layered_body:
  assumes "layered n ns st" and "r = By_Structure \<or> positive n ns (bfs_body r A n st)"
  shows "layered n ns (bfs_body r A n st)"
proof -
  from assms(1) have disj: "\<And>i j. i < n \<Longrightarrow> j < ns \<Longrightarrow> frontier st i j \<noteq> None \<Longrightarrow> paths st i j = None"
    and cnt: "\<And>j. j < ns \<Longrightarrow> \<exists>i<n. frontier st i j \<noteq> None \<Longrightarrow>
        depth st < card {i. i < n \<and> paths st i j \<noteq> None}"
    unfolding layered_def by blast+
  have 1: "next_paths st i j = None" if "i < n" "j < ns" "next_frontier r A n st i j \<noteq> None"
    for i j
  proof -
    from that(3) have nm: "\<not> as_mask r cast_BOOL (next_paths st) i j"
      by (auto simp: next_frontier_entry split: if_splits)
    show ?thesis
    proof (cases "next_paths st i j")
      case None
      then show ?thesis .
    next
      case (Some v)
      with nm have "r \<noteq> By_Structure" "v = 0" by (auto simp: as_mask_def cast_BOOL_def)
      with assms(2) that(1,2) Some show ?thesis by (auto simp: positive_def)
    qed
  qed
  have 2: "depth st + 1 < card {i. i < n \<and> next_paths st i j \<noteq> None}"
    if "j < ns" "i < n" "next_frontier r A n st i j \<noteq> None" for i j
  proof -
    from that(3) have "products n GrB_TIMES_INT64 (\<lambda>k. cast_INT64 A k i)
        (\<lambda>k. frontier st k j) \<noteq> []"
      by (auto simp: next_frontier_entry reduce_list_def split: if_splits)
    from products_stored [OF this] obtain k where k: "k < n" "frontier st k j \<noteq> None"
      by blast
    let ?P = "{i. i < n \<and> paths st i j \<noteq> None}"
    let ?P' = "{i. i < n \<and> next_paths st i j \<noteq> None}"
    have fin: "finite ?P'" by simp
    from k that(1) have d: "depth st < card ?P" using cnt by blast
    from k that(1) have "k \<notin> ?P" using disj by auto
    moreover have "insert k ?P \<subseteq> ?P'"
      using k by (auto simp: next_paths_entry split: option.splits)
    ultimately have "card ?P + 1 \<le> card ?P'"
      using card_mono [OF fin, of "insert k ?P"] by simp
    with d show ?thesis by simp
  qed
  from 1 2 show ?thesis unfolding layered_def by auto
qed

lemma layered_bound:
  assumes "layered n ns st" and "i < n" and "j < ns" and "frontier st i j \<noteq> None"
  shows "depth st + 2 \<le> n"
proof -
  let ?P = "{i. i < n \<and> paths st i j \<noteq> None}"
  from assms have d: "depth st < card ?P" unfolding layered_def by blast
  from assms have "i \<notin> ?P" unfolding layered_def by auto
  with assms(2) have "?P \<subseteq> {..<n} - {i}" by auto
  then have "card ?P \<le> card ({..<n} - {i})" by (intro card_mono) auto
  also have "\<dots> = n - 1" using assms(2) by simp
  finally show ?thesis using d by simp
qed

lemma layered_init:
  assumes "bfs_init r A n srcs ns = Inr st0"
  shows "layered n ns st0"
proof -
  note init = bfs_init_state [OF assms]
  note src = valid_sources_less [OF bfs_init_sources [OF assms]]
  have "paths st0 i j = None" if "frontier st0 i j \<noteq> None" for i j
    using that by (auto simp: init as_mask_def cast_BOOL_def split: if_splits)
  moreover have "0 < card {i. i < n \<and> paths st0 i j \<noteq> None}" if "j < ns" for j
  proof -
    have "source_at srcs j \<in> {i. i < n \<and> paths st0 i j \<noteq> None}"
      using that src [OF that] by (simp add: init)
    then show ?thesis by (intro card_gt_0_iff [THEN iffD2]) auto
  qed
  ultimately show ?thesis unfolding layered_def by (simp add: init(4))
qed

lemma positive_init:
  assumes "bfs_init r A n srcs ns = Inr st0" and "positive_weights A n"
  shows "positive n ns st0"
proof -
  note init = bfs_init_state [OF assms(1)]
  note src = valid_sources_less [OF bfs_init_sources [OF assms(1)]]
  have "0 < v" if "i < n" "j < ns" "frontier st0 i j = Some v" for i j v
  proof -
    from that(3) obtain x where x: "A (source_at srcs j) i = Some x" "v = wrap64 x"
      by (auto simp: init(2) split: if_splits)
    with assms(2) src [OF that(2)] that(1) have "0 < x" "x < 2 ^ 63"
      by (auto simp: positive_weights_def split: option.splits)
    with x show ?thesis by (simp add: wrap64_id in64_def)
  qed
  then show ?thesis unfolding positive_def by (auto simp: init(1) split: if_splits)
qed

lemma bfs_loop_exit:
  "bfs_loop r A n ns st0 = Inr st \<Longrightarrow> GrB_Matrix_nvals n ns (frontier st) = 0"
proof (induction r A n ns st0 rule: bfs_loop.induct)
  case (1 r A n ns st0)
  from "1.prems" have nd: "\<not> n \<le> depth st0"
    by (subst (asm) bfs_loop.simps) (auto split: if_splits)
  show ?case
  proof (cases "GrB_Matrix_nvals n ns (frontier (bfs_body r A n st0)) \<noteq> 0")
    case True
    with "1.prems" nd have "bfs_loop r A n ns (bfs_body r A n st0) = Inr st"
      by (subst (asm) bfs_loop.simps) simp
    with "1.IH" [OF nd True] show ?thesis .
  next
    case False
    with "1.prems" nd have "st = bfs_body r A n st0"
      by (subst (asm) bfs_loop.simps) simp
    with False show ?thesis by simp
  qed
qed

lemma bfs_loop_terminates:
  assumes "layered n ns st"
    and "r = By_Structure \<or>
         (positive n ns st \<and> positive_weights A n \<and> no_overflow r A n ns st)"
    and "depth st < n"
  shows "\<exists>st'. bfs_loop r A n ns st = Inr st' \<and> depth st' \<le> max (depth st + 1) (n - 1)"
  using assms
proof (induction r A n ns st rule: bfs_loop.induct)
  case (1 r A n ns st)
  let ?st1 = "bfs_body r A n st"
  from "1.prems"(3) have nd: "\<not> n \<le> depth st" by simp
  have pos1: "r = By_Structure \<or> positive n ns ?st1"
    using "1.prems"(1,2) nd positive_body [of A n ns st r]
    by (subst (asm) no_overflow.simps) (auto split: if_splits)
  then have lay1: "layered n ns ?st1"
    by (rule layered_body [OF "1.prems"(1)])
  show ?case
  proof (cases "GrB_Matrix_nvals n ns (frontier ?st1) \<noteq> 0")
    case False
    with nd have "bfs_loop r A n ns st = Inr ?st1"
      by (subst bfs_loop.simps) simp
    then show ?thesis by simp
  next
    case True
    then obtain i j where ij: "i < n" "j < ns" "frontier ?st1 i j \<noteq> None"
      by (auto simp: nvals_zero_iff)
    from layered_bound [OF lay1 ij] have d1: "depth st + 3 \<le> n" by simp
    have hyp1: "r = By_Structure \<or>
         (positive n ns ?st1 \<and> positive_weights A n \<and> no_overflow r A n ns ?st1)"
      using "1.prems"(2) pos1 nd True
      by (subst (asm) no_overflow.simps) (auto split: if_splits)
    from d1 have "depth ?st1 < n" by simp
    from "1.IH" [OF nd True lay1 hyp1 this] obtain st'
      where st': "bfs_loop r A n ns ?st1 = Inr st'" "depth st' \<le> max (depth ?st1 + 1) (n - 1)"
      by blast
    from nd True st'(1) have "bfs_loop r A n ns st = Inr st'"
      by (subst bfs_loop.simps) simp
    moreover from st'(2) d1 have "depth st' \<le> max (depth st + 1) (n - 1)" by simp
    ultimately show ?thesis by blast
  qed
qed



text \<open>
When the mask is read by value, stored zeros can keep the frontier alive: with a
  stored zero at (0,1) and at (1,1) the loop runs until it writes outside \<open>S_array\<close>.
\<close>

lemma zero_entries_overrun:
  "isl (forward By_Value (matrix_of [((0, 1), 0), ((1, 1), 0)]) 2 (Indices [0]) 1) \<and>
   projl (forward By_Value (matrix_of [((0, 1), 0), ((1, 1), 0)]) 2 (Indices [0]) 1)
     = Out_of_bounds"
  by code_simp


text \<open>
Path counts along the run.
\<close>

lemma layered_keeps:
  assumes "layered n ns st" and "i < n" and "j < ns" and "paths st i j = Some v"
  shows "next_paths st i j = Some v"
proof -
  from assms have "frontier st i j = None" unfolding layered_def by force
  with assms(4) show ?thesis by (simp add: next_paths_entry)
qed

lemma bfs_loop_visited:
  assumes "bfs_loop r A n ns st0 = Inr st" and "layered n ns st0" and "positive n ns st0"
    and "positive_weights A n" and "no_overflow r A n ns st0"
  shows "st = (bfs_body r A n ^^ (depth st - depth st0)) st0 \<and> depth st0 < depth st \<and>
         (\<forall>d \<le> depth st - depth st0.
            layered n ns ((bfs_body r A n ^^ d) st0) \<and> positive n ns ((bfs_body r A n ^^ d) st0))"
  using assms
proof (induction r A n ns st0 rule: bfs_loop.induct)
  case (1 r A n ns st0)
  let ?st1 = "bfs_body r A n st0"
  from "1.prems"(1) have nd: "\<not> n \<le> depth st0"
    by (subst (asm) bfs_loop.simps) (auto split: if_splits)
  from "1.prems"(5) nd have fit: "fits A n ns st0"
    by (subst (asm) no_overflow.simps) (auto split: if_splits)
  have pos1: "positive n ns ?st1"
    by (rule positive_body [OF "1.prems"(4) fit "1.prems"(3,2)])
  then have lay1: "layered n ns ?st1"
    by (intro layered_body [OF "1.prems"(2)]) simp
  show ?case
  proof (cases "GrB_Matrix_nvals n ns (frontier ?st1) \<noteq> 0")
    case False
    with "1.prems"(1) nd have st: "st = ?st1"
      by (subst (asm) bfs_loop.simps) simp
    have "layered n ns ((bfs_body r A n ^^ d) st0) \<and> positive n ns ((bfs_body r A n ^^ d) st0)"
      if "d \<le> 1" for d
    proof (cases d)
      case 0
      with "1.prems"(2,3) show ?thesis by simp
    next
      case (Suc d')
      with that have "d = 1" by simp
      with pos1 lay1 show ?thesis by simp
    qed
    then show ?thesis by (simp add: st)
  next
    case True
    with "1.prems"(1) nd have loop1: "bfs_loop r A n ns ?st1 = Inr st"
      by (subst (asm) bfs_loop.simps) simp
    from "1.prems"(5) nd True have no1: "no_overflow r A n ns ?st1"
      by (subst (asm) no_overflow.simps) (auto split: if_splits)
    from "1.IH" [OF nd True loop1 lay1 pos1 "1.prems"(4) no1]
    have eq: "st = (bfs_body r A n ^^ (depth st - depth ?st1)) ?st1"
      and lt: "depth ?st1 < depth st"
      and all: "\<And>d. d \<le> depth st - depth ?st1 \<Longrightarrow>
            layered n ns ((bfs_body r A n ^^ d) ?st1) \<and>
            positive n ns ((bfs_body r A n ^^ d) ?st1)"
      by blast+
    from lt have m: "depth st - depth st0 = Suc (depth st - depth ?st1)" by simp
    have "layered n ns ((bfs_body r A n ^^ d) st0) \<and> positive n ns ((bfs_body r A n ^^ d) st0)"
      if "d \<le> depth st - depth st0" for d
    proof (cases d)
      case 0
      with "1.prems"(2,3) show ?thesis by simp
    next
      case (Suc d')
      with that m have "d' \<le> depth st - depth ?st1" by simp
      from all [OF this] Suc show ?thesis by (simp add: funpow_swap1)
    qed
    moreover have "st = (bfs_body r A n ^^ (depth st - depth st0)) st0"
      using eq unfolding m by (simp add: funpow_swap1)
    ultimately show ?thesis using lt by simp
  qed
qed

text \<open>
For positive stored values and sums that do not overflow, an entry of
  the path-count matrix that is present after \<open>d\<close> passes of the loop is positive and
  has the same value after every later pass \<open>d'\<close> up to the end of the search, so it
  never decreases.
\<close>

theorem C9_path_counts:
  assumes "forward r A n srcs ns = Inr st"
    and "positive_weights A n" and "no_overflow_run r A n srcs ns"
    and "d \<le> d'" and "d' \<le> depth st" and "i < n" and "j < ns"
    and "paths_at r A n srcs ns d i j = Some v"
  shows "0 < v \<and> paths_at r A n srcs ns d' i j = Some v \<and>
         paths_at r A n srcs ns (depth st) = paths st"
proof -
  from assms(1) obtain st0 where st0: "bfs_init r A n srcs ns = Inr st0"
    and loop: "bfs_loop r A n ns st0 = Inr st"
    by (auto simp: forward_def split: sum.splits)
  let ?at = "\<lambda>d. (bfs_body r A n ^^ d) st0"
  have at: "paths_at r A n srcs ns d = paths (?at d)" for d
    by (simp add: paths_at_def st0)
  from assms(3) have no: "no_overflow r A n ns st0" by (simp add: no_overflow_run_def st0)
  note init = bfs_init_state [OF st0]
  from bfs_loop_visited [OF loop layered_init [OF st0] positive_init [OF st0 assms(2)] assms(2) no]
  have fin: "st = ?at (depth st)"
    and inv: "\<And>d. d \<le> depth st \<Longrightarrow> layered n ns (?at d) \<and> positive n ns (?at d)"
    by (simp_all add: init(4))
  from assms(4,5) have "d \<le> depth st" by simp
  from inv [OF this] assms(6,7,8) have pos: "0 < v" by (auto simp: positive_def at)
  have "d + m \<le> depth st \<Longrightarrow> paths (?at (d + m)) i j = Some v" for m
  proof (induction m)
    case 0
    with assms(8) show ?case by (simp add: at)
  next
    case (Suc m)
    then have "paths (?at (d + m)) i j = Some v" "layered n ns (?at (d + m))"
      using inv [of "d + m"] by simp_all
    from layered_keeps [OF this(2) assms(6,7) this(1)] show ?case by simp
  qed
  from this [of "d' - d"] assms(4,5) have "paths (?at d') i j = Some v" by simp
  with pos fin show ?thesis by (simp add: at)
qed

text \<open>
C9 at a concrete input: an edge from 0 to 1 stored with the value -1, source 0. Node 1
  is reached and its path count is -1, which is not positive; with the matrix treated as
  boolean, as the comment of line 89 has it, the count would be 1.
\<close>

theorem C9_counterexample:
  "\<not> isl (forward By_Value (matrix_of [((0, 1), - 1)]) 2 (Indices [0]) 1) \<and>
   paths (projr (forward By_Value (matrix_of [((0, 1), - 1)]) 2 (Indices [0]) 1)) 1 0
     = Some (- 1)"
  by code_simp

theorem C9_path_counts_witness:
  "forward By_Value (matrix_of [((0, 1), 1), ((1, 2), 1)]) 3 (Indices [0]) 1
     = Inr (projr (forward By_Value (matrix_of [((0, 1), 1), ((1, 2), 1)]) 3 (Indices [0]) 1)) \<and>
   positive_weights (matrix_of [((0, 1), 1), ((1, 2), 1)]) 3 \<and>
   no_overflow_run By_Value (matrix_of [((0, 1), 1), ((1, 2), 1)]) 3 (Indices [0]) 1 \<and>
   depth (projr (forward By_Value (matrix_of [((0, 1), 1), ((1, 2), 1)]) 3 (Indices [0]) 1)) = 2 \<and>
   paths_at By_Value (matrix_of [((0, 1), 1), ((1, 2), 1)]) 3 (Indices [0]) 1 1 1 0 = Some 1 \<and>
   paths_at By_Value (matrix_of [((0, 1), 1), ((1, 2), 1)]) 3 (Indices [0]) 1 2 1 0 = Some 1"
proof -
  let ?A = "matrix_of [((0, 1), 1), ((1, 2), 1)]"
  let ?f = "forward By_Value ?A 3 (Indices [0]) 1"
  have "\<not> isl ?f" by code_simp
  then have run: "?f = Inr (projr ?f)" by simp
  have p: "positive_weights ?A 3" by code_simp
  have o: "no_overflow_run By_Value ?A 3 (Indices [0]) 1" by code_simp
  have dep: "depth (projr ?f) = 2" by code_simp
  have one: "paths_at By_Value ?A 3 (Indices [0]) 1 1 1 0 = Some 1" by code_simp
  have le: "(1::nat) \<le> 2" "2 \<le> depth (projr ?f)" and lt: "(1::nat) < 3" "(0::nat) < 1"
    unfolding dep by simp_all
  have "paths_at By_Value ?A 3 (Indices [0]) 1 2 1 0 = Some 1"
    using C9_path_counts [OF run p o le lt one] by blast
  with run p o dep one show ?thesis by blast
qed

subsection \<open>The backward loop: order of the passes\<close>

text \<open>
The backward loop as a fold over its indices.
\<close>

lemma backward_loop_fold:
  "0 \<le> i \<Longrightarrow> backward_loop r A n st i bs =
     fold (backward_step r A n st) (rev [1..<Suc (nat i)]) bs"
proof (induction r A n st i bs rule: backward_loop.induct)
  case (1 r A n st i bs)
  show ?case
  proof (cases "0 < i")
    case False
    with "1.prems" have "i = 0" by simp
    then show ?thesis by (simp add: backward_loop_nonpos)
  next
    case True
    then have n: "nat i = Suc (nat (i - 1))" by simp
    from True have "backward_loop r A n st i bs =
        backward_loop r A n st (i - 1) (backward_step r A n st (nat i) bs)"
      by (subst backward_loop.simps) simp
    also have "\<dots> = fold (backward_step r A n st) (rev [1..<Suc (nat (i - 1))])
        (backward_step r A n st (nat i) bs)"
      using True by (intro "1.IH") simp_all
    also have "\<dots> = fold (backward_step r A n st) (rev [1..<Suc (nat i)]) bs"
      unfolding n by simp
    finally show ?thesis .
  qed
qed

lemma wrap32_id: "- (2 ^ 31) \<le> x \<Longrightarrow> x < 2 ^ 31 \<Longrightarrow> wrap32 x = x"
  by (simp add: wrap32_def)

text \<open>
Within the range of the \<open>int\<close> loop counter, that is for a run whose forward phase
  records \<open>D \<le> 2^31\<close> depth levels, the
  backward phase is the loop body applied for \<open>i = D-1, D-2, \<dots>, 1\<close> in this order, and
  never for \<open>i = 0\<close>. The body computes, in order: \<open>temp\<close> as the product of the
  dependency and the inverse path count at the positions that \<open>S_array[i]\<close> masks in,
  with no entry anywhere else; then \<open>temp\<close> as the product of the adjacency matrix
  with that, at the positions that \<open>S_array[i-1]\<close> masks in and with no entry anywhere
  else; then \<open>bc_update\<close> as its old value plus \<open>temp\<close> times the path count, where
  that product has an entry.
\<close>

theorem C3_backward_order:
  assumes "forward r A n srcs ns = Inr st" and "depth st \<le> 2 ^ 31"
  shows "backward r A n ns st =
           fold (backward_step r A n st) (rev [1..<depth st]) (init_bc n ns) \<and>
         0 \<notin> set (rev [1..<depth st]) \<and>
         (\<forall>i bs a b.
            temp (backward_step r A n st i bs) a b =
              bc_propagate r A n st i (bc_share r st i bs) a b \<and>
            bc_update (backward_step r A n st i bs) a b =
              bc_accumulate st (bc_update bs) (temp (backward_step r A n st i bs)) a b) \<and>
         (\<forall>i bs a b.
            bc_share r st i bs a b =
              (if as_mask r id (S_array st ! i) a b
               then (case bc_update bs a b of None \<Rightarrow> None
                     | Some x \<Rightarrow> (case inv_paths st a b of None \<Rightarrow> None
                                   | Some y \<Rightarrow> Some (GrB_TIMES_FP64 x y)))
               else None)) \<and>
         (\<forall>i t a b.
            bc_propagate r A n st i t a b =
              (if as_mask r id (S_array st ! (i - 1)) a b
               then reduce_list GrB_PLUS_FP64
                      (products n GrB_TIMES_FP64 (\<lambda>k. cast_FP64 A a k) (\<lambda>k. t k b))
               else None)) \<and>
         (\<forall>bc t a b.
            bc_accumulate st bc t a b =
              (case (case t a b of None \<Rightarrow> None
                     | Some x \<Rightarrow> (case cast_FP64 (paths st) a b of None \<Rightarrow> None
                                   | Some y \<Rightarrow> Some (GrB_TIMES_FP64 x y))) of
                 None \<Rightarrow> bc a b
               | Some z \<Rightarrow> (case bc a b of None \<Rightarrow> Some z
                             | Some x \<Rightarrow> Some (GrB_PLUS_FP64 x z))))"
proof -
  have "backward r A n ns st = fold (backward_step r A n st) (rev [1..<depth st]) (init_bc n ns)"
  proof (cases "depth st")
    case 0
    then show ?thesis by (simp add: backward_def wrap32_def backward_loop_nonpos)
  next
    case (Suc m)
    with assms(2) have "wrap32 (int (depth st) - 1) = int m"
      by (intro trans [OF wrap32_id]) simp_all
    with Suc show ?thesis by (simp add: backward_def backward_loop_fold)
  qed
  then show ?thesis
    using bc_share_entry bc_propagate_entry bc_accumulate_entry by simp
qed

text \<open>
The search on a path graph, for any number of nodes.
\<close>

lemma products_single:
  assumes "\<forall>k<n. k \<noteq> k0 \<longrightarrow> b k = None"
  shows "products n mul a b =
     (if k0 < n then (case a k0 of None \<Rightarrow> []
                      | Some x \<Rightarrow> (case b k0 of None \<Rightarrow> [] | Some y \<Rightarrow> [mul x y]))
      else [])"
  using assms
proof (induction n)
  case 0
  then show ?case by (simp add: products_def)
next
  case (Suc n)
  then have IH: "products n mul a b =
     (if k0 < n then (case a k0 of None \<Rightarrow> []
                      | Some x \<Rightarrow> (case b k0 of None \<Rightarrow> [] | Some y \<Rightarrow> [mul x y]))
      else [])"
    by simp
  show ?case
  proof (cases "n = k0")
    case True
    with IH show ?thesis by (simp add: products_Suc)
  next
    case False
    with Suc.prems have "b n = None" by simp
    with IH False show ?thesis by (auto simp: products_Suc split: option.splits)
  qed
qed

lemma path_init:
  assumes "0 < N"
  shows "bfs_init r path_graph N (Indices [0]) 1 = Inr (path_state 0)"
proof -
  have "valid_sources N (Indices [0]) 1"
    using assms by (simp add: valid_sources_def)
  from bfs_init_valid [OF this] obtain st0
    where st0: "bfs_init r path_graph N (Indices [0]) 1 = Inr st0" by blast
  note init = bfs_init_state [OF st0]
  have "st0 = path_state 0"
  proof (rule bfs_state.equality)
    show "paths st0 = paths (path_state 0)"
      by (intro ext) (auto simp: init(1) path_state_def source_at_def)
    show "frontier st0 = frontier (path_state 0)"
      by (intro ext)
         (auto simp: init(1,2) path_state_def source_at_def path_graph_def as_mask_def wrap64_def)
    show "S_array st0 = S_array (path_state 0)" by (simp add: init(3) path_state_def)
    show "depth st0 = depth (path_state 0)" by (simp add: init(4) path_state_def)
  qed simp
  with st0 show ?thesis by simp
qed

lemma path_body:
  assumes "Suc m < N"
  shows "bfs_body r path_graph N (path_state m) = path_state (Suc m)"
proof (rule bfs_state.equality)
  have np: "next_paths (path_state m) = (\<lambda>i j. if j = 0 \<and> i \<le> Suc m then Some 1 else None)"
    by (intro ext) (auto simp: next_paths_entry path_state_def)
  then show "paths (bfs_body r path_graph N (path_state m)) = paths (path_state (Suc m))"
    by (simp add: path_state_def)
  have "next_frontier r path_graph N (path_state m) i j =
      (if j = 0 \<and> i = Suc (Suc m) then Some 1 else None)" for i j
  proof -
    have "products N GrB_TIMES_INT64 (\<lambda>k. cast_INT64 path_graph k i)
        (\<lambda>k. frontier (path_state m) k j) =
        (if j = 0 \<and> i = Suc (Suc m) then [1] else [])"
      using assms
      by (subst products_single [where ?k0.0 = "Suc m"])
         (auto simp: path_state_def cast_INT64_def path_graph_def GrB_TIMES_INT64_def wrap64_def)
    then show ?thesis
      by (auto simp: next_frontier_entry np as_mask_def reduce_list_def)
  qed
  then show "frontier (bfs_body r path_graph N (path_state m)) = frontier (path_state (Suc m))"
    by (intro ext) (simp add: path_state_def)
  have "GrB_apply GrB_Matrix_new None None (\<lambda>v. GrB_IDENTITY_BOOL (cast_BOOL v))
      (frontier (path_state m)) GrB_NULL =
      (\<lambda>i j. if j = 0 \<and> i = Suc m then Some True else None)"
    by (intro ext) (simp add: snapshot_entry path_state_def)
  then show "S_array (bfs_body r path_graph N (path_state m)) = S_array (path_state (Suc m))"
    by (simp add: bfs_body_def path_state_def)
  show "depth (bfs_body r path_graph N (path_state m)) = depth (path_state (Suc m))"
    by (simp add: path_state_def)
qed simp

lemma path_frontier_nvals:
  "GrB_Matrix_nvals N 1 (frontier (path_state m)) \<noteq> 0 \<longleftrightarrow> Suc m < N"
  by (auto simp: nvals_zero_iff path_state_def)

lemma path_loop:
  "N = m + 2 + d \<Longrightarrow> bfs_loop r path_graph N 1 (path_state m) = Inr (path_state (N - 1))"
proof (induction d arbitrary: m)
  case 0
  then have b: "bfs_body r path_graph N (path_state m) = path_state (Suc m)"
    by (intro path_body) simp
  from 0 have nd: "\<not> N \<le> depth (path_state m)" by (simp add: path_state_def)
  from 0 have nv: "GrB_Matrix_nvals N 1 (frontier (bfs_body r path_graph N (path_state m))) = 0"
    unfolding b using path_frontier_nvals [of N "Suc m"] by simp
  from nd nv have "bfs_loop r path_graph N 1 (path_state m) =
      Inr (bfs_body r path_graph N (path_state m))"
    by (subst bfs_loop.simps) simp
  with b 0 show ?case by simp
next
  case (Suc d)
  then have b: "bfs_body r path_graph N (path_state m) = path_state (Suc m)"
    by (intro path_body) simp
  from Suc.prems have nd: "\<not> N \<le> depth (path_state m)" by (simp add: path_state_def)
  from Suc.prems
  have nv: "GrB_Matrix_nvals N 1 (frontier (bfs_body r path_graph N (path_state m))) \<noteq> 0"
    unfolding b using path_frontier_nvals [of N "Suc m"] by simp
  from nd nv have "bfs_loop r path_graph N 1 (path_state m) =
      bfs_loop r path_graph N 1 (bfs_body r path_graph N (path_state m))"
    by (subst bfs_loop.simps) simp
  also from Suc.prems have "\<dots> = Inr (path_state (N - 1))"
    unfolding b by (intro Suc.IH) simp
  finally show ?case .
qed

lemma path_forward:
  assumes "2 \<le> N"
  shows "forward r path_graph N (Indices [0]) 1 = Inr (path_state (N - 1))"
proof -
  from assms have "0 < N" "N = 0 + 2 + (N - 2)" by simp_all
  from path_init [OF this(1)] path_loop [OF this(2)] show ?thesis
    by (simp add: forward_def)
qed

lemma path_S_array:
  "e < m \<Longrightarrow> S_array (path_state m) ! e =
     (\<lambda>i j. if j = 0 \<and> i = Suc e then Some True else None)"
  by (simp add: path_state_def)

lemma path_first_pass:
  assumes "0 < i" and "0 < c"
  shows "bc_update (backward_step r path_graph (Suc (Suc i)) (path_state (Suc i)) i
           (init_bc (Suc (Suc i)) c)) i 0 = Some (Finite 2)"
proof -
  let ?st = "path_state (Suc i)" and ?N = "Suc (Suc i)"
  from assms obtain i' where i': "i = Suc i'" by (cases i) auto
  have S1: "S_array ?st ! i = (\<lambda>a b. if b = 0 \<and> a = Suc i then Some True else None)"
    using path_S_array [of i "Suc i"] by simp
  have S2: "S_array ?st ! (i - 1) = (\<lambda>a b. if b = 0 \<and> a = i then Some True else None)"
    using path_S_array [of i' "Suc i"] i' by simp
  have m1: "as_mask r id (S_array ?st ! i) a b \<longleftrightarrow> b = 0 \<and> a = Suc i" for a b
    unfolding as_mask_def S1 by simp
  have m2: "as_mask r id (S_array ?st ! (i - 1)) a b \<longleftrightarrow> b = 0 \<and> a = i" for a b
    unfolding as_mask_def S2 by simp
  have p: "paths ?st a b = (if b = 0 \<and> a \<le> Suc i then Some 1 else None)" for a b
    by (simp add: path_state_def)
  have share: "bc_share r ?st i (init_bc ?N c) a b =
      (if b = 0 \<and> a = Suc i then Some (Finite 1) else None)" for a b
    unfolding bc_share_entry m1 using assms by (simp add: init_bc_entry inv_paths_entry p)
  have "products ?N GrB_TIMES_FP64 (\<lambda>k. cast_FP64 path_graph i k)
      (\<lambda>k. bc_share r ?st i (init_bc ?N c) k 0) = [Finite 1]"
    by (subst products_single [where ?k0.0 = "Suc i"])
       (auto simp: share cast_FP64_def path_graph_def)
  then have prp: "bc_propagate r path_graph ?N ?st i
      (bc_share r ?st i (init_bc ?N c)) i 0 = Some (Finite 1)"
    unfolding bc_propagate_entry m2 by (simp add: reduce_list_def)
  show ?thesis
    using assms by (simp add: bc_accumulate_entry prp init_bc_entry cast_FP64_def p)
qed

text \<open>
C3 at a concrete input: the path graph on \<open>2^31 + 2\<close> nodes with source 0.
  The forward phase records \<open>D = 2^31 + 1\<close> levels; \<open>depth - 1 = 2^31\<close> does not fit
  the \<open>int\<close> loop counter, which starts at \<open>-2^31\<close>, and the backward loop does not run
  a single pass, although the pass for \<open>i = D - 1\<close> would change \<open>bc_update\<close>.
\<close>

theorem C3_counterexample:
  "forward By_Value path_graph 2147483650 (Indices [0]) 1 = Inr (path_state 2147483649) \<and>
   depth (path_state 2147483649) = 2147483649 \<and>
   backward By_Value path_graph 2147483650 1 (path_state 2147483649) = init_bc 2147483650 1 \<and>
   bc_update (init_bc 2147483650 1) 2147483648 0 = Some (Finite 1) \<and>
   bc_update (backward_step By_Value path_graph 2147483650 (path_state 2147483649) 2147483648
                (init_bc 2147483650 1)) 2147483648 0 = Some (Finite 2)"
proof -
  have 1: "forward By_Value path_graph 2147483650 (Indices [0]) 1 = Inr (path_state 2147483649)"
    using path_forward [of 2147483650 By_Value] by simp
  have 2: "depth (path_state 2147483649) = 2147483649"
    by (simp add: path_state_def)
  have "wrap32 (int (depth (path_state 2147483649)) - 1) = - 2147483648"
    by (simp add: 2 wrap32_def)
  then have 3: "backward By_Value path_graph 2147483650 1 (path_state 2147483649)
      = init_bc 2147483650 1"
    by (simp add: backward_def backward_loop_nonpos)
  have 4: "bc_update (init_bc 2147483650 1) 2147483648 0 = Some (Finite 1)"
    by (simp add: init_bc_entry)
  have 5: "bc_update (backward_step By_Value path_graph 2147483650 (path_state 2147483649)
      2147483648 (init_bc 2147483650 1)) 2147483648 0 = Some (Finite 2)"
    using path_first_pass [of 2147483648 1 By_Value] by simp
  from 1 2 3 4 5 show ?thesis by blast
qed

theorem C3_backward_order_witness:
  "forward By_Value (matrix_of [((0, 1), 1), ((1, 2), 1)]) 3 (Indices [0]) 1
     = Inr (projr (forward By_Value (matrix_of [((0, 1), 1), ((1, 2), 1)]) 3 (Indices [0]) 1)) \<and>
   depth (projr (forward By_Value (matrix_of [((0, 1), 1), ((1, 2), 1)]) 3 (Indices [0]) 1)) = 2 \<and>
   backward By_Value (matrix_of [((0, 1), 1), ((1, 2), 1)]) 3 1
       (projr (forward By_Value (matrix_of [((0, 1), 1), ((1, 2), 1)]) 3 (Indices [0]) 1))
     = fold (backward_step By_Value (matrix_of [((0, 1), 1), ((1, 2), 1)]) 3
               (projr (forward By_Value (matrix_of [((0, 1), 1), ((1, 2), 1)]) 3 (Indices [0]) 1)))
         [1] (init_bc 3 1)"
proof -
  let ?A = "matrix_of [((0, 1), 1), ((1, 2), 1)]"
  let ?f = "forward By_Value ?A 3 (Indices [0]) 1"
  have "\<not> isl ?f" by code_simp
  then have run: "?f = Inr (projr ?f)" by simp
  have dep: "depth (projr ?f) = 2" by code_simp
  then have le: "depth (projr ?f) \<le> 2 ^ 31" by simp
  have l: "rev [1..<depth (projr ?f)] = [1]" unfolding dep by (simp add: upt_rec)
  from C3_backward_order [OF run le]
  have "backward By_Value ?A 3 1 (projr ?f) =
      fold (backward_step By_Value ?A 3 (projr ?f)) (rev [1..<depth (projr ?f)]) (init_bc 3 1)"
    by blast
  with run dep show ?thesis unfolding l by blast
qed

subsection \<open>The setup: no validation before the engine calls\<close>

lemma run_steps_calls:
  "issued (run_steps eng steps res) = issued res @ upto_rejected eng (calls_of steps)"
  by (induction eng steps res rule: run_steps.induct)
     (auto simp: LAGRAPH_OK_failure_def split: option.splits)

lemma setup_steps_calls: "calls_of (setup_steps srcs) = setup_calls"
  by (cases srcs) (simp_all add: setup_steps_def setup_calls_def)

text \<open>
The cleanup of a failing setup: \<open>temp\<close> is assigned in line 226 only, so whenever the
  engine rejects one of the calls of the setup, \<open>LAGRAPH_FREE_ALL\<close> reads handles that
  were never assigned.
\<close>

lemma run_steps_outcome:
  assumes "outcome res = Continues" and "Temp \<notin> set (held res)"
    and "Malloc Temp \<notin> set steps" and "\<forall>c. Engine c (Some Temp) \<notin> set steps"
  shows "outcome (run_steps eng steps res) =
           (if \<forall>c \<in> set (calls_of steps). status_ok (eng c) then Continues
            else Undefined_cleanup)"
  using assms
proof (induction eng steps res rule: run_steps.induct)
  case (1 eng res)
  then show ?case by simp
next
  case (2 eng c new rest res)
  show ?case
  proof (cases "status_ok (eng c)")
    case True
    let ?res = "res\<lparr>issued := issued res @ [c],
                   allocated := allocated res @ (case new of None \<Rightarrow> [] | Some x \<Rightarrow> [x]),
                   held := held res @ (case new of None \<Rightarrow> [] | Some x \<Rightarrow> [x])\<rparr>"
    from "2.prems" have "new \<noteq> Some Temp" by auto
    with "2.prems" have "outcome ?res = Continues" "Temp \<notin> set (held ?res)"
      "Malloc Temp \<notin> set rest" "\<forall>c. Engine c (Some Temp) \<notin> set rest"
      by (auto split: option.splits)
    from "2.IH" [OF True this] True show ?thesis by simp
  next
    case False
    from "2.prems"(2) have "LAGRAPH_FREE_ALL (held res) = None"
      by (auto simp: LAGRAPH_FREE_ALL_def freed_handles_def)
    with False show ?thesis by (auto simp: LAGRAPH_OK_failure_def)
  qed
next
  case (3 eng x rest res)
  then show ?case by auto
next
  case (4 eng x rest res)
  then have "Temp \<notin> set (remove1 x (held res))"
    using notin_set_remove1 by fast
  with 4 show ?case by auto
qed

lemma setup_failure_undefined:
  "outcome (bc_setup eng srcs) =
     (if \<forall>c \<in> set setup_calls. status_ok (eng c) then Continues else Undefined_cleanup)"
proof -
  have "Malloc Temp \<notin> set (setup_steps srcs)" "\<forall>c. Engine c (Some Temp) \<notin> set (setup_steps srcs)"
    by (cases srcs; auto simp: setup_steps_def)+
  from run_steps_outcome [OF _ _ this, of _ eng] show ?thesis
    by (simp add: bc_setup_def setup_steps_calls)
qed

text \<open>
C5, amended: \<open>LAGraph_bc_batch\<close> does not check its arguments. On every call,
  whatever the handles, the source list and the count, its first action is the engine
  call \<open>GrB_Matrix_nrows\<close>, and the engine calls of the setup are issued in their fixed
  order up to and including the first one that the engine rejects, so that an invalid
  argument is found only if, and where, an engine call rejects it. Nothing has been
  allocated when \<open>GrB_Matrix_nrows\<close> or \<open>GrB_Vector_new\<close> is rejected; the result vector,
  the descriptor and the arrays \<open>i_nsver\<close> and \<open>ones\<close> have been allocated when
  \<open>GrB_Matrix_new\<close> for \<open>paths\<close> is rejected, and \<open>paths\<close> as well when \<open>GrB_Matrix_build\<close>
  is rejected.
\<close>

theorem C5_no_validation:
  "issued (bc_setup eng srcs) = upto_rejected eng setup_calls \<and>
   hd (issued (bc_setup eng srcs)) = Call_Matrix_nrows \<and> issued (bc_setup eng srcs) \<noteq> [] \<and>
   (\<not> status_ok (eng Call_Matrix_nrows) \<longrightarrow>
      issued (bc_setup eng srcs) = [Call_Matrix_nrows] \<and> allocated (bc_setup eng srcs) = []) \<and>
   (status_ok (eng Call_Matrix_nrows) \<and> \<not> status_ok (eng Call_Vector_new) \<longrightarrow>
      issued (bc_setup eng srcs) = [Call_Matrix_nrows, Call_Vector_new] \<and>
      allocated (bc_setup eng srcs) = []) \<and>
   (status_ok (eng Call_Matrix_nrows) \<and> status_ok (eng Call_Vector_new) \<and>
    status_ok (eng Call_Descriptor_new) \<and> status_ok (eng Call_Descriptor_set_INP0) \<and>
    status_ok (eng Call_Descriptor_set_OUTP) \<and> status_ok (eng Call_Descriptor_set_MASK) \<longrightarrow>
      (\<not> status_ok (eng Call_Matrix_new_paths) \<longrightarrow>
         allocated (bc_setup eng srcs) = [Centrality, Desc_tsr, I_nsver, Ones]) \<and>
      (status_ok (eng Call_Matrix_new_paths) \<and> \<not> status_ok (eng Call_Matrix_build) \<longrightarrow>
         set (allocated (bc_setup eng srcs)) \<supseteq> {Centrality, Desc_tsr, I_nsver, Ones, Paths}))"
proof -
  have calls: "issued (bc_setup eng srcs) = upto_rejected eng setup_calls"
    by (simp add: bc_setup_def run_steps_calls setup_steps_calls)
  then have first: "hd (issued (bc_setup eng srcs)) = Call_Matrix_nrows \<and>
      issued (bc_setup eng srcs) \<noteq> []"
    by (simp add: setup_calls_def)
  have rest: "(\<not> status_ok (eng Call_Matrix_nrows) \<longrightarrow>
      issued (bc_setup eng srcs) = [Call_Matrix_nrows] \<and> allocated (bc_setup eng srcs) = []) \<and>
   (status_ok (eng Call_Matrix_nrows) \<and> \<not> status_ok (eng Call_Vector_new) \<longrightarrow>
      issued (bc_setup eng srcs) = [Call_Matrix_nrows, Call_Vector_new] \<and>
      allocated (bc_setup eng srcs) = []) \<and>
   (status_ok (eng Call_Matrix_nrows) \<and> status_ok (eng Call_Vector_new) \<and>
    status_ok (eng Call_Descriptor_new) \<and> status_ok (eng Call_Descriptor_set_INP0) \<and>
    status_ok (eng Call_Descriptor_set_OUTP) \<and> status_ok (eng Call_Descriptor_set_MASK) \<longrightarrow>
      (\<not> status_ok (eng Call_Matrix_new_paths) \<longrightarrow>
         allocated (bc_setup eng srcs) = [Centrality, Desc_tsr, I_nsver, Ones]) \<and>
      (status_ok (eng Call_Matrix_new_paths) \<and> \<not> status_ok (eng Call_Matrix_build) \<longrightarrow>
         set (allocated (bc_setup eng srcs)) \<supseteq> {Centrality, Desc_tsr, I_nsver, Ones, Paths}))"
    by (cases srcs)
       (simp_all add: bc_setup_def setup_steps_def LAGRAPH_OK_failure_def
          split: option.splits)
  from calls first rest show ?thesis by blast
qed

text \<open>
C5, as stated, at a concrete input: a graph with three nodes and the source list
  \<open>[7]\<close>. The engine finds the source outside the graph in \<open>GrB_Matrix_build\<close>, the eighth
  engine call: seven engine calls have gone before it, five objects have been allocated,
  and the cleanup of the failing path reads handles that were never assigned.
\<close>

theorem C5_counterexample:
  "init_paths 3 (Indices [7]) 1 = Inl (Status GrB_INDEX_OUT_OF_BOUNDS) \<and>
   issued (bc_setup (engine_rejecting Call_Matrix_build GrB_INDEX_OUT_OF_BOUNDS) (Indices [7])) =
     [Call_Matrix_nrows, Call_Vector_new, Call_Descriptor_new, Call_Descriptor_set_INP0,
      Call_Descriptor_set_OUTP, Call_Descriptor_set_MASK, Call_Matrix_new_paths,
      Call_Matrix_build] \<and>
   allocated (bc_setup (engine_rejecting Call_Matrix_build GrB_INDEX_OUT_OF_BOUNDS) (Indices [7])) =
     [Centrality, Desc_tsr, I_nsver, Ones, Paths] \<and>
   outcome (bc_setup (engine_rejecting Call_Matrix_build GrB_INDEX_OUT_OF_BOUNDS) (Indices [7])) =
     Undefined_cleanup"
  by (simp add: init_paths_def GrB_Matrix_build_def LAGRAPH_OK_def bc_setup_def setup_steps_def
      engine_rejecting_def status_ok_def LAGRAPH_OK_failure_def LAGRAPH_FREE_ALL_def
      freed_handles_def)

theorem C5_no_validation_witness:
  "\<not> status_ok (engine_rejecting Call_Matrix_nrows GrB_UNINITIALIZED_OBJECT Call_Matrix_nrows) \<and>
   issued (bc_setup (engine_rejecting Call_Matrix_nrows GrB_UNINITIALIZED_OBJECT) (Indices [0]))
     = [Call_Matrix_nrows] \<and>
   allocated (bc_setup (engine_rejecting Call_Matrix_nrows GrB_UNINITIALIZED_OBJECT) (Indices [0]))
     = [] \<and>
   status_ok (engine_rejecting Call_Vector_new GrB_NULL_POINTER Call_Matrix_nrows) \<and>
   \<not> status_ok (engine_rejecting Call_Vector_new GrB_NULL_POINTER Call_Vector_new) \<and>
   issued (bc_setup (engine_rejecting Call_Vector_new GrB_NULL_POINTER) (Indices [0]))
     = [Call_Matrix_nrows, Call_Vector_new] \<and>
   allocated (bc_setup (engine_rejecting Call_Vector_new GrB_NULL_POINTER) (Indices [0])) = [] \<and>
   \<not> status_ok (engine_rejecting Call_Matrix_new_paths GrB_INVALID_VALUE Call_Matrix_new_paths) \<and>
   allocated (bc_setup (engine_rejecting Call_Matrix_new_paths GrB_INVALID_VALUE) (Indices []))
     = [Centrality, Desc_tsr, I_nsver, Ones] \<and>
   \<not> status_ok (engine_rejecting Call_Matrix_build GrB_INDEX_OUT_OF_BOUNDS Call_Matrix_build) \<and>
   {Centrality, Desc_tsr, I_nsver, Ones, Paths} \<subseteq>
     set (allocated (bc_setup (engine_rejecting Call_Matrix_build GrB_INDEX_OUT_OF_BOUNDS)
       (Indices [7])))"
proof -
  let ?e1 = "engine_rejecting Call_Matrix_nrows GrB_UNINITIALIZED_OBJECT"
  let ?e2 = "engine_rejecting Call_Vector_new GrB_NULL_POINTER"
  let ?e3 = "engine_rejecting Call_Matrix_new_paths GrB_INVALID_VALUE"
  let ?e4 = "engine_rejecting Call_Matrix_build GrB_INDEX_OUT_OF_BOUNDS"
  have h1: "\<not> status_ok (?e1 Call_Matrix_nrows)"
    by (simp add: engine_rejecting_def status_ok_def)
  have h2: "status_ok (?e2 Call_Matrix_nrows)" "\<not> status_ok (?e2 Call_Vector_new)"
    by (simp_all add: engine_rejecting_def status_ok_def)
  have h3: "status_ok (?e3 Call_Matrix_nrows)" "status_ok (?e3 Call_Vector_new)"
    "status_ok (?e3 Call_Descriptor_new)" "status_ok (?e3 Call_Descriptor_set_INP0)"
    "status_ok (?e3 Call_Descriptor_set_OUTP)" "status_ok (?e3 Call_Descriptor_set_MASK)"
    "\<not> status_ok (?e3 Call_Matrix_new_paths)"
    by (simp_all add: engine_rejecting_def status_ok_def)
  have h4: "status_ok (?e4 Call_Matrix_nrows)" "status_ok (?e4 Call_Vector_new)"
    "status_ok (?e4 Call_Descriptor_new)" "status_ok (?e4 Call_Descriptor_set_INP0)"
    "status_ok (?e4 Call_Descriptor_set_OUTP)" "status_ok (?e4 Call_Descriptor_set_MASK)"
    "status_ok (?e4 Call_Matrix_new_paths)" "\<not> status_ok (?e4 Call_Matrix_build)"
    by (simp_all add: engine_rejecting_def status_ok_def)
  have 1: "issued (bc_setup ?e1 (Indices [0])) = [Call_Matrix_nrows] \<and>
      allocated (bc_setup ?e1 (Indices [0])) = []"
    using C5_no_validation [of ?e1 "Indices [0]"] h1 by blast
  have 2: "issued (bc_setup ?e2 (Indices [0])) = [Call_Matrix_nrows, Call_Vector_new] \<and>
      allocated (bc_setup ?e2 (Indices [0])) = []"
    using C5_no_validation [of ?e2 "Indices [0]"] h2 by blast
  have 3: "allocated (bc_setup ?e3 (Indices [])) = [Centrality, Desc_tsr, I_nsver, Ones]"
    using C5_no_validation [of ?e3 "Indices []"] h3 by blast
  have 4: "{Centrality, Desc_tsr, I_nsver, Ones, Paths} \<subseteq>
      set (allocated (bc_setup ?e4 (Indices [7])))"
    using C5_no_validation [of ?e4 "Indices [7]"] h4 by blast
  from h1 h2 h3(7) h4(8) 1 2 3 4 show ?thesis by blast
qed

subsection \<open>Shortest paths and the dependency recurrence\<close>

lemma sum_list_upt: "sum_list (map f [0..<n]) = (\<Sum>k<n. f k)"
  by (simp add: interv_sum_list_conv_sum_set_nat atLeast_upt)

declare walks.simps(2) [simp del]

lemma walks_Suc: "walks A n (Suc l) s t = (\<Sum>k<n. if A k t \<noteq> None then walks A n l s k else 0)"
  by (simp only: walks.simps sum_list_upt)

lemma times_delta: "(x::nat) * (if b then y else 0) = (if b then x * y else 0)"
  by simp

text \<open>
Walks compose: a walk of length \<open>a + b\<close> splits at its node after \<open>a\<close> edges.
\<close>

lemma walks_add:
  "t < n \<Longrightarrow> walks A n (a + b) s t = (\<Sum>v<n. walks A n a s v * walks A n b v t)"
proof (induction b arbitrary: t)
  case 0
  then show ?case by (simp add: times_delta)
next
  case (Suc b)
  have "walks A n (a + Suc b) s t =
      (\<Sum>k<n. if A k t \<noteq> None then walks A n (a + b) s k else 0)"
    by (simp only: add_Suc_right walks_Suc)
  also have "\<dots> = (\<Sum>k<n. if A k t \<noteq> None then (\<Sum>v<n. walks A n a s v * walks A n b v k) else 0)"
    by (intro sum.cong refl) (simp only: Suc.IH lessThan_iff)
  also have "\<dots> = (\<Sum>k<n. \<Sum>v<n. walks A n a s v * (if A k t \<noteq> None then walks A n b v k else 0))"
    by (intro sum.cong refl) (simp only: times_delta if_distrib [of "sum _"] cong: if_cong, simp del: not_None_eq)
  also have "\<dots> = (\<Sum>v<n. \<Sum>k<n. walks A n a s v * (if A k t \<noteq> None then walks A n b v k else 0))"
    by (rule sum.swap)
  also have "\<dots> = (\<Sum>v<n. walks A n a s v * walks A n (Suc b) v t)"
    by (simp only: walks_Suc sum_distrib_left)
  finally show ?case .
qed

lemma walks_one: "s < n \<Longrightarrow> walks A n (Suc 0) s t = (if A s t \<noteq> None then 1 else 0)"
proof -
  assume s: "s < n"
  have "walks A n (Suc 0) s t = (\<Sum>k<n. if k = s then (if A s t \<noteq> None then 1 else 0) else 0)"
    unfolding walks_Suc by (intro sum.cong refl) (auto simp del: not_None_eq)
  also have "\<dots> = (if A s t \<noteq> None then 1 else 0)"
    using s by (simp del: not_None_eq)
  finally show ?thesis .
qed

lemma reach_hops: "reach A n s t \<Longrightarrow> 0 < walks A n (hops A n s t) s t"
  unfolding reach_def hops_def by (rule LeastI_ex)

lemma hops_le: "0 < walks A n l s t \<Longrightarrow> hops A n s t \<le> l"
  unfolding hops_def by (rule Least_le)

lemma reachI: "0 < walks A n l s t \<Longrightarrow> reach A n s t"
  unfolding reach_def by blast

lemma below_hops: "l < hops A n s t \<Longrightarrow> walks A n l s t = 0"
  using hops_le [of A n l s t] by (cases "walks A n l s t") auto

lemma reach_self [simp]: "reach A n s s"
  by (rule reachI [of _ _ 0]) simp

lemma hops_self [simp]: "hops A n s s = 0"
  using hops_le [of A n 0 s s] by simp

lemma hops_zero: "reach A n s t \<Longrightarrow> hops A n s t = 0 \<Longrightarrow> s = t"
  using reach_hops [of A n s t] by (simp split: if_splits)

lemma walks_compose:
  assumes "t < n" and "v < n" and "0 < walks A n a s v" and "0 < walks A n b v t"
  shows "0 < walks A n (a + b) s t"
proof -
  have "0 < walks A n a s v * walks A n b v t" using assms by simp
  also have "\<dots> \<le> (\<Sum>u<n. walks A n a s u * walks A n b u t)"
    using assms(2) by (intro member_le_sum) auto
  finally show ?thesis by (simp add: walks_add [OF assms(1)])
qed

lemma triangle:
  assumes "t < n" and "v < n" and "reach A n s v" and "reach A n v t"
  shows "reach A n s t" and "hops A n s t \<le> hops A n s v + hops A n v t"
proof -
  have "0 < walks A n (hops A n s v + hops A n v t) s t"
    using assms by (intro walks_compose [OF assms(1,2)] reach_hops)
  then show "reach A n s t" "hops A n s t \<le> hops A n s v + hops A n v t"
    by (auto intro: reachI hops_le)
qed

lemma edge_reach:
  assumes "v < n" and "A v w \<noteq> None"
  shows "reach A n v w" and "hops A n v w \<le> 1"
proof -
  have "0 < walks A n (Suc 0) v w" using assms by (simp add: walks_one del: not_None_eq)
  then show "reach A n v w" "hops A n v w \<le> 1"
    by (auto intro: reachI dest: hops_le)
qed

lemma edge_first:
  assumes "v < n" and "w < n" and "t < n" and "A v w \<noteq> None" and "reach A n w t"
  shows "reach A n v t" and "hops A n v t \<le> Suc (hops A n w t)"
proof -
  note e = edge_reach [where A = A, OF assms(1,4)]
  from triangle [OF assms(3,2) e(1) assms(5)] e(2)
  show "reach A n v t" "hops A n v t \<le> Suc (hops A n w t)" by auto
qed

lemma edge_last:
  assumes "k < n" and "t < n" and "A k t \<noteq> None" and "reach A n s k"
  shows "reach A n s t" and "hops A n s t \<le> Suc (hops A n s k)"
proof -
  note e = edge_reach [where A = A, OF assms(1,3)]
  from triangle [OF assms(2,1) assms(4) e(1)] e(2)
  show "reach A n s t" "hops A n s t \<le> Suc (hops A n s k)" by auto
qed

lemma walks_pos_Suc:
  assumes "0 < walks A n (Suc l) s t"
  shows "\<exists>k<n. A k t \<noteq> None \<and> 0 < walks A n l s k"
proof (rule ccontr)
  assume "\<not> ?thesis"
  then have "(\<Sum>k<n. if A k t \<noteq> None then walks A n l s k else 0) = 0"
    by (intro sum.neutral) (auto simp del: not_None_eq)
  with assms show False by (simp only: walks_Suc)
qed

lemma predecessor:
  assumes "t < n" and "reach A n s t" and "hops A n s t = Suc m"
  shows "\<exists>k<n. A k t \<noteq> None \<and> reach A n s k \<and> hops A n s k = m"
proof -
  from reach_hops [OF assms(2)] assms(3) have "0 < walks A n (Suc m) s t" by simp
  from walks_pos_Suc [OF this] obtain k where k: "k < n" "A k t \<noteq> None" "0 < walks A n m s k"
    by blast
  from k(3) have r: "reach A n s k" and le: "hops A n s k \<le> m"
    by (auto intro: reachI hops_le)
  from edge_last(2) [OF k(1) assms(1) k(2) r] assms(3) have "m \<le> hops A n s k" by simp
  with k r le show ?thesis by (intro exI [of _ k]) (simp del: not_None_eq)
qed

text \<open>
Every level up to the distance of a reachable node is inhabited, so distances stay
  below \<open>n\<close>.
\<close>

lemma levels:
  assumes "s < n" and "t < n" and "reach A n s t" and "j \<le> hops A n s t"
  shows "\<exists>k<n. reach A n s k \<and> hops A n s k = j"
  using assms(2-)
proof (induction "hops A n s t - j" arbitrary: j)
  case 0
  then show ?case by (intro exI [of _ t]) simp
next
  case (Suc d)
  then have "\<exists>k<n. reach A n s k \<and> hops A n s k = Suc j" by (intro Suc.hyps(1)) simp_all
  then obtain k where k: "k < n" "reach A n s k" "hops A n s k = Suc j" by blast
  from predecessor [OF k] show ?case by blast
qed

lemma hops_less:
  assumes "s < n" and "t < n" and "reach A n s t"
  shows "hops A n s t < n"
proof -
  let ?R = "{k. k < n \<and> reach A n s k}"
  have "{..hops A n s t} \<subseteq> hops A n s ` ?R"
    using levels [OF assms] by (auto simp: image_iff)
  then have "card {..hops A n s t} \<le> card (hops A n s ` ?R)"
    by (intro card_mono) auto
  also have "\<dots> \<le> card ?R" by (intro card_image_le) auto
  also have "\<dots> \<le> card {..<n}" by (intro card_mono) auto
  finally show ?thesis by simp
qed

lemma find_upt_Least:
  assumes "l < n" and "P l"
  shows "find P [0..<n] = Some (LEAST l. P l)"
proof -
  let ?m = "LEAST l. P l"
  have m: "P ?m" "?m \<le> l" using assms(2) by (auto intro: LeastI Least_le)
  with assms(1) have "?m < length [0..<n]" by simp
  moreover have "P ([0..<n] ! ?m)" using m assms(1) by simp
  moreover have "\<forall>j<?m. \<not> P ([0..<n] ! j)"
    using m assms(1) by (auto dest: not_less_Least)
  moreover have "?m = [0..<n] ! ?m" using m assms(1) by simp
  ultimately show ?thesis unfolding find_Some_iff by blast
qed

text \<open>
The brute-force notions in the terms of \<open>reach\<close> and \<open>hops\<close>.
\<close>

lemma distance_eq:
  assumes "s < n" and "t < n"
  shows "distance A n s t = (if reach A n s t then Some (hops A n s t) else None)"
proof (cases "reach A n s t")
  case True
  from hops_less [OF assms True] reach_hops [OF True]
  have "find (\<lambda>l. 0 < walks A n l s t) [0..<n] = Some (LEAST l. 0 < walks A n l s t)"
    by (rule find_upt_Least)
  with True show ?thesis by (simp add: distance_def hops_def)
next
  case False
  then have "find (\<lambda>l. 0 < walks A n l s t) [0..<n] = None"
    by (auto simp: find_None_iff reach_def)
  with False show ?thesis by (simp add: distance_def)
qed

lemma sigma_eq:
  assumes "s < n" and "t < n"
  shows "sigma A n s t = (if reach A n s t then walks A n (hops A n s t) s t else 0)"
  by (simp add: sigma_def distance_eq [OF assms])

lemma sigma_pos: "s < n \<Longrightarrow> t < n \<Longrightarrow> 0 < sigma A n s t \<longleftrightarrow> reach A n s t"
  using reach_hops [of A n s t] by (simp add: sigma_eq)

lemma sigma_self: "s < n \<Longrightarrow> sigma A n s s = 1"
  by (simp add: sigma_eq)

lemma sigma_through_eq:
  assumes "s < n" and "t < n" and "i < n"
  shows "sigma_through A n s t i =
     (if reach A n s t \<and> reach A n s i \<and> reach A n i t \<and>
         hops A n s i + hops A n i t = hops A n s t
      then sigma A n s i * sigma A n i t else 0)"
  by (simp add: sigma_through_def distance_eq assms)

text \<open>
The centrality of a node is the sum of the dependencies of the other sources on it.
\<close>

lemma betweenness_dependency:
  "betweenness A n i = (\<Sum>s<n. if s = i then 0 else dependency A n s i)"
  unfolding betweenness_def dependency_def sum_list_upt
  by (intro sum.cong refl) auto

lemma sigma_first_step:
  assumes "v < n" and "t < n" and "t \<noteq> v" and "reach A n v t"
  shows "sigma A n v t =
     (\<Sum>w<n. if A v w \<noteq> None \<and> reach A n w t \<and> Suc (hops A n w t) = hops A n v t
            then sigma A n w t else 0)"
proof -
  from assms(3,4) obtain b where b: "hops A n v t = Suc b"
    using hops_zero [of A n v t] by (cases "hops A n v t") auto
  have "sigma A n v t = walks A n (Suc 0 + b) v t"
    using assms b by (simp add: sigma_eq)
  also have "\<dots> = (\<Sum>w<n. walks A n (Suc 0) v w * walks A n b w t)"
    by (rule walks_add [OF assms(2)])
  also have "\<dots> = (\<Sum>w<n. if A v w \<noteq> None \<and> reach A n w t \<and> Suc (hops A n w t) = hops A n v t
            then sigma A n w t else 0)"
  proof (intro sum.cong refl)
    fix w assume "w \<in> {..<n}"
    then have w: "w < n" by simp
    show "walks A n (Suc 0) v w * walks A n b w t =
        (if A v w \<noteq> None \<and> reach A n w t \<and> Suc (hops A n w t) = hops A n v t
         then sigma A n w t else 0)"
    proof (cases "A v w \<noteq> None \<and> 0 < walks A n b w t")
      case True
      then have r: "reach A n w t" and le: "hops A n w t \<le> b"
        by (auto intro: reachI hops_le)
      from True have e: "A v w \<noteq> None" by blast
      from edge_first(2) [OF assms(1) w assms(2) e r] b have "b \<le> hops A n w t" by simp
      with le have "hops A n w t = b" by simp
      with True r b w assms(1,2) show ?thesis
        by (simp add: walks_one sigma_eq del: not_None_eq)
    next
      case False
      then consider "A v w = None" | "walks A n b w t = 0" by auto
      then show ?thesis
      proof cases
        case 1
        with assms(1) show ?thesis by (simp add: walks_one)
      next
        case 2
        have "sigma A n w t = 0" if "reach A n w t" "Suc (hops A n w t) = hops A n v t"
          using that 2 b w assms(2) by (simp add: sigma_eq)
        with 2 show ?thesis by (auto simp del: not_None_eq)
      qed
    qed
  qed
  finally show ?thesis .
qed

lemma through_edge:
  assumes "s < n" and "v < n" and "w < n" and "t < n" and "reach A n s v"
  shows "successor A n s v w \<and> reach A n w t \<and> reach A n s t \<and>
           hops A n s w + hops A n w t = hops A n s t \<longleftrightarrow>
         (reach A n s t \<and> reach A n v t \<and> hops A n s v + hops A n v t = hops A n s t) \<and>
           A v w \<noteq> None \<and> reach A n w t \<and> Suc (hops A n w t) = hops A n v t"
    (is "?L \<longleftrightarrow> ?R")
proof
  assume L: ?L
  then have e: "A v w \<noteq> None" and sw: "hops A n s w = Suc (hops A n s v)"
    and wt: "reach A n w t" and st: "reach A n s t"
    and eq: "hops A n s w + hops A n w t = hops A n s t"
    by (auto simp: successor_def)
  note f = edge_first [OF assms(2,3,4) e wt]
  from triangle(2) [OF assms(4,2) assms(5) f(1)] f(2) sw eq
  have "Suc (hops A n w t) = hops A n v t" "hops A n s v + hops A n v t = hops A n s t"
    by simp_all
  with e wt st f(1) show ?R by blast
next
  assume R: ?R
  then have e: "A v w \<noteq> None" and wt: "reach A n w t" and st: "reach A n s t"
    and vt: "Suc (hops A n w t) = hops A n v t"
    and eq: "hops A n s v + hops A n v t = hops A n s t"
    by auto
  note l = edge_last [OF assms(2,3) e assms(5)]
  from triangle(2) [OF assms(4,3) l(1) wt] l(2) vt eq
  have "hops A n s w = Suc (hops A n s v)" "hops A n s w + hops A n w t = hops A n s t"
    by simp_all
  with e wt st l(1) show ?L by (simp add: successor_def del: not_None_eq)
qed

lemma dependency_term:
  assumes "s < n" and "v < n" and "t < n" and "reach A n s v"
  shows "(if t = v \<or> sigma A n s t = 0 then 0
          else of_nat (sigma_through A n s t v) / of_nat (sigma A n s t)) =
         (\<Sum>w<n. if successor A n s v w \<and> reach A n w t \<and> reach A n s t \<and>
                    hops A n s w + hops A n w t = hops A n s t
                 then of_nat (sigma A n s v * sigma A n w t) / (of_nat (sigma A n s t) :: rat)
                 else 0)"
    (is "?f = (\<Sum>w<n. ?g w)")
proof (cases "t = v")
  case True
  have "?g w = 0" for w
    by (auto simp: successor_def True)
  with True show ?thesis by simp
next
  case False
  let ?C = "reach A n s t \<and> reach A n v t \<and> hops A n s v + hops A n v t = hops A n s t"
  show ?thesis
  proof (cases ?C)
    case True
    then have st: "reach A n s t" and vt: "reach A n v t" by auto
    from st have pos: "sigma A n s t \<noteq> 0" using sigma_pos [OF assms(1,3), of A] by simp
    have "?f = of_nat (sigma A n s v * sigma A n v t) / of_nat (sigma A n s t)"
      using False pos True assms(4) by (simp add: sigma_through_eq [OF assms(1,3,2)])
    also have "\<dots> = of_nat (sigma A n s v) *
        of_nat (\<Sum>w<n. if A v w \<noteq> None \<and> reach A n w t \<and> Suc (hops A n w t) = hops A n v t
            then sigma A n w t else 0) / of_nat (sigma A n s t)"
      using sigma_first_step [OF assms(2,3) False vt] by simp
    also have "\<dots> = (\<Sum>w<n. of_nat (sigma A n s v) *
        (if A v w \<noteq> None \<and> reach A n w t \<and> Suc (hops A n w t) = hops A n v t
            then of_nat (sigma A n w t) else 0) / of_nat (sigma A n s t))"
      by (simp add: sum_distrib_left sum_divide_distrib if_distrib [of of_nat] del: not_None_eq
          cong: if_cong)
    also have "\<dots> = (\<Sum>w<n. ?g w)"
    proof (intro sum.cong refl)
      fix w assume "w \<in> {..<n}"
      then have w: "w < n" by simp
      from through_edge [OF assms(1,2) w assms(3,4)] True
      show "of_nat (sigma A n s v) *
        (if A v w \<noteq> None \<and> reach A n w t \<and> Suc (hops A n w t) = hops A n v t
            then of_nat (sigma A n w t) else 0) / of_nat (sigma A n s t) = ?g w"
        by (simp del: not_None_eq)
    qed
    finally show ?thesis .
  next
    case nC: False
    have "?g w = 0" if "w \<in> {..<n}" for w
    proof -
      from that have w: "w < n" by simp
      from through_edge [OF assms(1,2) w assms(3,4)] nC show ?thesis by auto
    qed
    then have "(\<Sum>w<n. ?g w) = 0" by (intro sum.neutral) blast
    moreover have "?f = 0"
    proof (cases "reach A n s t")
      case True
      with nC have "sigma_through A n s t v = 0"
        by (auto simp: sigma_through_eq [OF assms(1,3,2)])
      then show ?thesis by simp
    next
      case False
      then show ?thesis using sigma_pos [OF assms(1,3), of A] by simp
    qed
    ultimately show ?thesis by simp
  qed
qed

lemma dependency_successor:
  assumes "s < n" and "w < n" and "successor A n s v w"
  shows "(\<Sum>t<n. if successor A n s v w \<and> reach A n w t \<and> reach A n s t \<and>
                    hops A n s w + hops A n w t = hops A n s t
                 then of_nat (sigma A n s v * sigma A n w t) / (of_nat (sigma A n s t) :: rat)
                 else 0) =
         of_nat (sigma A n s v) / of_nat (sigma A n s w) * (1 + dependency A n s w)"
proof -
  from assms(3) have sw: "reach A n s w" by (simp add: successor_def)
  then have pos: "sigma A n s w \<noteq> 0" using sigma_pos [OF assms(1,2), of A] by simp
  let ?q = "of_nat (sigma A n s v) / (of_nat (sigma A n s w) :: rat)"
  let ?F = "\<lambda>t. if sigma A n s t = 0 then 0
      else of_nat (sigma_through A n s t w) / (of_nat (sigma A n s t) :: rat)"
  have tm: "(if successor A n s v w \<and> reach A n w t \<and> reach A n s t \<and>
                    hops A n s w + hops A n w t = hops A n s t
                 then of_nat (sigma A n s v * sigma A n w t) / (of_nat (sigma A n s t) :: rat)
                 else 0) = ?q * ?F t" if "t \<in> {..<n}" for t
  proof -
    from that have t: "t < n" by simp
    show ?thesis
    proof (cases "reach A n w t \<and> reach A n s t \<and> hops A n s w + hops A n w t = hops A n s t")
      case True
      then have "sigma A n s t \<noteq> 0" using sigma_pos [OF assms(1) t, of A] by simp
      with True assms(3) sw pos show ?thesis
        by (simp add: sigma_through_eq [OF assms(1) t assms(2)])
    next
      case False
      then have "sigma_through A n s t w = 0"
        by (auto simp: sigma_through_eq [OF assms(1) t assms(2)])
      with False show ?thesis by auto
    qed
  qed
  have Fw: "?F w = 1"
    using pos sw assms(2) by (simp add: sigma_through_eq [OF assms(1,2,2)] sigma_self)
  have "(\<Sum>t<n. ?F t) = (\<Sum>t<n. (if t = w then ?F w else 0) + (if t = w then 0 else ?F t))"
    by (intro sum.cong refl) simp
  also have "\<dots> = ?F w + (\<Sum>t<n. if t = w then 0 else ?F t)"
    using assms(2) by (simp add: sum.distrib)
  also have "(\<Sum>t<n. if t = w then 0 else ?F t) = dependency A n s w"
    unfolding dependency_def by (intro sum.cong refl) simp
  finally have "(\<Sum>t<n. ?F t) = 1 + dependency A n s w" using Fw by simp
  then have "?q * (1 + dependency A n s w) = ?q * (\<Sum>t<n. ?F t)"
    by (simp only:)
  also have "\<dots> = (\<Sum>t<n. ?q * ?F t)"
    by (rule sum_distrib_left)
  also have "\<dots> = (\<Sum>t<n. if successor A n s v w \<and> reach A n w t \<and> reach A n s t \<and>
                    hops A n s w + hops A n w t = hops A n s t
                 then of_nat (sigma A n s v * sigma A n w t) / (of_nat (sigma A n s t) :: rat)
                 else 0)"
    by (intro sum.cong refl) (simp only: tm)
  finally show ?thesis by simp
qed

text \<open>
The recurrence that the backward loop computes: the dependency of \<open>s\<close> on \<open>v\<close> is the
  sum over the successors \<open>w\<close> of \<open>v\<close> of \<open>sigma s v / sigma s w * (1 + dependency s w)\<close>.
\<close>

lemma dependency_recurrence:
  assumes "s < n" and "v < n" and "reach A n s v"
  shows "dependency A n s v =
     (\<Sum>w<n. if successor A n s v w
            then of_nat (sigma A n s v) / of_nat (sigma A n s w) * (1 + dependency A n s w)
            else 0)"
proof -
  let ?g = "\<lambda>w t. if successor A n s v w \<and> reach A n w t \<and> reach A n s t \<and>
                    hops A n s w + hops A n w t = hops A n s t
                 then of_nat (sigma A n s v * sigma A n w t) / (of_nat (sigma A n s t) :: rat)
                 else 0"
  have "dependency A n s v = (\<Sum>t<n. \<Sum>w<n. ?g w t)"
    unfolding dependency_def
    by (intro sum.cong refl) (simp only: lessThan_iff dependency_term [OF assms(1,2) _ assms(3)])
  also have "\<dots> = (\<Sum>w<n. \<Sum>t<n. ?g w t)"
    by (rule sum.swap)
  also have "\<dots> = (\<Sum>w<n. if successor A n s v w
            then of_nat (sigma A n s v) / of_nat (sigma A n s w) * (1 + dependency A n s w)
            else 0)"
  proof (intro sum.cong refl)
    fix w assume "w \<in> {..<n}"
    then have w: "w < n" by simp
    show "(\<Sum>t<n. ?g w t) = (if successor A n s v w
            then of_nat (sigma A n s v) / of_nat (sigma A n s w) * (1 + dependency A n s w)
            else 0)"
    proof (cases "successor A n s v w")
      case True
      from dependency_successor [OF assms(1) w True] True show ?thesis by simp
    next
      case False
      then show ?thesis by simp
    qed
  qed
  finally show ?thesis .
qed

subsection \<open>Exactness for stored values 1\<close>

lemma unit_weights_entry:
  "unit_weights A n \<Longrightarrow> i < n \<Longrightarrow> j < n \<Longrightarrow> A i j = Some v \<Longrightarrow> v = 1"
  by (auto simp: unit_weights_def split: option.splits)

lemma unit_positive: "unit_weights A n \<Longrightarrow> positive_weights A n"
  unfolding unit_weights_def positive_weights_def
  by (intro ballI) (force split: option.splits)

lemma sum_list_products:
  fixes a b :: "nat \<Rightarrow> 'a::semiring_0 option"
  shows "sum_list (products n (*) a b) =
     (\<Sum>k<n. case a k of None \<Rightarrow> 0 | Some x \<Rightarrow> (case b k of None \<Rightarrow> 0 | Some y \<Rightarrow> x * y))"
  by (induction n) (simp_all add: products_def split: option.splits)

lemma products_empty_iff:
  "products n mul a b = [] \<longleftrightarrow> (\<forall>k<n. a k = None \<or> b k = None)"
proof
  assume "products n mul a b = []"
  then show "\<forall>k<n. a k = None \<or> b k = None"
    by (induction n) (auto simp: products_Suc less_Suc_eq split: option.splits)
next
  assume "\<forall>k<n. a k = None \<or> b k = None"
  then show "products n mul a b = []" by (rule products_Nil)
qed

lemma reach_level: "reach A n s t \<Longrightarrow> hops A n s t = l \<Longrightarrow> 0 < walks A n l s t"
  using reach_hops [of A n s t] by simp

lemma next_level:
  assumes "i < n" and "\<not> (reach A n s i \<and> hops A n s i \<le> l)"
  shows "k < n \<Longrightarrow> A k i \<noteq> None \<Longrightarrow>
           (reach A n s k \<and> hops A n s k = l) \<longleftrightarrow> 0 < walks A n l s k"
    and "(reach A n s i \<and> hops A n s i = Suc l) \<longleftrightarrow> 0 < walks A n (Suc l) s i"
proof -
  show "(reach A n s k \<and> hops A n s k = l) \<longleftrightarrow> 0 < walks A n l s k"
    if k: "k < n" "A k i \<noteq> None"
  proof
    assume "reach A n s k \<and> hops A n s k = l"
    then show "0 < walks A n l s k" using reach_hops [of A n s k] by auto
  next
    assume w: "0 < walks A n l s k"
    then have r: "reach A n s k" and le: "hops A n s k \<le> l"
      by (rule reachI, rule hops_le)
    from edge_last [OF k(1) assms(1) k(2) r] assms(2) le have "hops A n s k = l" by auto
    with r show "reach A n s k \<and> hops A n s k = l" by simp
  qed
  show "(reach A n s i \<and> hops A n s i = Suc l) \<longleftrightarrow> 0 < walks A n (Suc l) s i"
  proof
    assume "reach A n s i \<and> hops A n s i = Suc l"
    then show "0 < walks A n (Suc l) s i" using reach_hops [of A n s i] by auto
  next
    assume w: "0 < walks A n (Suc l) s i"
    then have r: "reach A n s i" and le: "hops A n s i \<le> Suc l"
      by (rule reachI, rule hops_le)
    with assms(2) show "reach A n s i \<and> hops A n s i = Suc l" by auto
  qed
qed

lemma level_sum:
  assumes "i < n" and "\<not> (reach A n s i \<and> hops A n s i \<le> l)"
  shows "(\<Sum>k<n. if A k i \<noteq> None \<and> reach A n s k \<and> hops A n s k = l
                  then int (walks A n l s k) else 0) = int (walks A n (Suc l) s i)"
proof -
  have "(\<Sum>k<n. if A k i \<noteq> None \<and> reach A n s k \<and> hops A n s k = l
                  then int (walks A n l s k) else 0)
      = (\<Sum>k<n. int (if A k i \<noteq> None then walks A n l s k else 0))"
  proof (intro sum.cong refl)
    fix k assume "k \<in> {..<n}"
    then have k: "k < n" by simp
    show "(if A k i \<noteq> None \<and> reach A n s k \<and> hops A n s k = l
           then int (walks A n l s k) else 0) = int (if A k i \<noteq> None then walks A n l s k else 0)"
      using next_level(1) [OF assms k] by (cases "A k i = None") auto
  qed
  then show ?thesis by (simp only: walks_Suc of_nat_sum)
qed

text \<open>
One pass of the search loop keeps the invariant, when its sums fit.
\<close>

lemma counted_body:
  assumes c: "counted A n st" and u: "unit_weights A n" and f: "fits A n n st"
  shows "counted A n (bfs_body r A n st)"
proof -
  let ?d = "depth st"
  from c have len: "length (S_array st) = ?d"
    and fr: "\<And>i s. i < n \<Longrightarrow> s < n \<Longrightarrow> frontier st i s =
        (if reach A n s i \<and> hops A n s i = Suc ?d
         then Some (int (walks A n (Suc ?d) s i)) else None)"
    and pa: "\<And>i s. i < n \<Longrightarrow> s < n \<Longrightarrow> paths st i s =
        (if reach A n s i \<and> hops A n s i \<le> ?d then Some (int (sigma A n s i)) else None)"
    and sa: "\<And>k i s. k < ?d \<Longrightarrow> i < n \<Longrightarrow> s < n \<Longrightarrow> (S_array st ! k) i s =
        (if reach A n s i \<and> hops A n s i = Suc k then Some True else None)"
    by (simp_all add: counted_def)
  have np: "next_paths st i s =
      (if reach A n s i \<and> hops A n s i \<le> Suc ?d then Some (int (sigma A n s i)) else None)"
    if "i < n" "s < n" for i s
    by (auto simp: next_paths_entry fr [OF that] pa [OF that] sigma_eq [OF that(2,1)] le_Suc_eq)
  have nf: "next_frontier r A n st i s =
      (if reach A n s i \<and> hops A n s i = Suc (Suc ?d)
       then Some (int (walks A n (Suc (Suc ?d)) s i)) else None)"
    if ij: "i < n" "s < n" for i s
  proof (cases "reach A n s i \<and> hops A n s i \<le> Suc ?d")
    case True
    then have "0 < sigma A n s i" using sigma_pos [OF ij(2,1), of A] by simp
    with True have "as_mask r cast_BOOL (next_paths st) i s"
      by (simp add: as_mask_def np [OF ij] cast_BOOL_def)
    with True show ?thesis by (auto simp: next_frontier_entry)
  next
    case False
    then have "next_paths st i s = None"
      by (simp only: np [OF ij] if_False)
    then have m: "\<not> as_mask r cast_BOOL (next_paths st) i s"
      by (simp add: as_mask_def)
    let ?a = "\<lambda>k. A k i" and ?b = "\<lambda>k. frontier st k s"
    have a: "\<forall>k<n. \<forall>x. ?a k = Some x \<longrightarrow> 0 < x \<and> x < 2 ^ 63"
      using unit_weights_entry [OF u _ ij(1)] by fastforce
    have b: "\<forall>k<n. \<forall>y. ?b k = Some y \<longrightarrow> 0 < y"
      by (auto simp: fr [OF _ ij(2)] reach_level split: if_splits)
    have s: "sum_list (products n (*) ?a ?b) < 2 ^ 63"
      using f ij by (simp add: fits_def)
    note ex = products_exact [OF a b s]
    have p: "products n GrB_TIMES_INT64 (\<lambda>k. cast_INT64 A k i) ?b = products n (*) ?a ?b"
      using ex by (simp add: cast_INT64_def)
    have red: "reduce_list GrB_PLUS_INT64 (products n (*) ?a ?b) =
        (if products n (*) ?a ?b = [] then None else Some (sum_list (products n (*) ?a ?b)))"
      using reduce_plus_exact(1) [of "products n (*) ?a ?b"] ex s by blast
    have "(\<Sum>k<n. case ?a k of None \<Rightarrow> 0
             | Some x \<Rightarrow> (case ?b k of None \<Rightarrow> 0 | Some y \<Rightarrow> x * y))
        = (\<Sum>k<n. if A k i \<noteq> None \<and> reach A n s k \<and> hops A n s k = Suc ?d
                  then int (walks A n (Suc ?d) s k) else 0)"
    proof (intro sum.cong refl)
      fix k assume "k \<in> {..<n}"
      then have k: "k < n" by simp
      show "(case ?a k of None \<Rightarrow> 0 | Some x \<Rightarrow> (case ?b k of None \<Rightarrow> 0 | Some y \<Rightarrow> x * y))
          = (if A k i \<noteq> None \<and> reach A n s k \<and> hops A n s k = Suc ?d
             then int (walks A n (Suc ?d) s k) else 0)"
        using unit_weights_entry [OF u k ij(1)]
        by (auto simp: fr [OF k ij(2)] split: option.splits)
    qed
    then have sm: "sum_list (products n (*) ?a ?b) = int (walks A n (Suc (Suc ?d)) s i)"
      by (simp only: sum_list_products level_sum [OF ij(1) False])
    have em: "products n (*) ?a ?b = [] \<longleftrightarrow> walks A n (Suc (Suc ?d)) s i = 0"
    proof
      assume "products n (*) ?a ?b = []"
      with sm show "walks A n (Suc (Suc ?d)) s i = 0" by simp
    next
      assume z: "walks A n (Suc (Suc ?d)) s i = 0"
      show "products n (*) ?a ?b = []"
      proof (rule ccontr)
        assume "products n (*) ?a ?b \<noteq> []"
        from reduce_plus_exact(2) [OF _ s this] ex have "0 < sum_list (products n (*) ?a ?b)"
          by blast
        with sm z show False by simp
      qed
    qed
    from m p red have "next_frontier r A n st i s =
        (if products n (*) ?a ?b = [] then None else Some (sum_list (products n (*) ?a ?b)))"
      by (simp only: next_frontier_entry if_False)
    also have "\<dots> = (if walks A n (Suc (Suc ?d)) s i = 0 then None
        else Some (int (walks A n (Suc (Suc ?d)) s i)))"
      by (simp only: em sm)
    finally show ?thesis
      using next_level(2) [OF ij(1) False] by auto
  qed
  have ns: "(S_array (bfs_body r A n st) ! k) i s =
      (if reach A n s i \<and> hops A n s i = Suc k then Some True else None)"
    if "k < Suc ?d" "i < n" "s < n" for k i s
  proof (cases "k < ?d")
    case True
    with len sa [OF True that(2,3)] show ?thesis by (simp add: S_array_body_nth(1))
  next
    case False
    with that(1) have k: "k = length (S_array st)" using len by simp
    show ?thesis
      unfolding k S_array_body_nth(2)
      by (auto simp: fr [OF that(2,3)] len dest: reach_level)
  qed
  show ?thesis
    unfolding counted_def using len np nf ns by simp
qed

lemma counted_init:
  assumes "bfs_init r A n GrB_ALL n = Inr st0" and u: "unit_weights A n"
  shows "counted A n st0"
proof -
  note init = bfs_init_state [OF assms(1)]
  have pa: "paths st0 i s = (if s = i then Some 1 else None)" if "s < n" for i s
    using that by (simp add: init(1) source_at_def)
  have p: "paths st0 i s =
      (if reach A n s i \<and> hops A n s i \<le> 0 then Some (int (sigma A n s i)) else None)"
    if "i < n" "s < n" for i s
    using hops_zero [of A n s i]
    by (auto simp: pa [OF that(2)] sigma_self [OF that(2)] sigma_self [OF that(1)])
  have f: "frontier st0 i s =
      (if reach A n s i \<and> hops A n s i = Suc 0
       then Some (int (walks A n (Suc 0) s i)) else None)"
    if "i < n" "s < n" for i s
  proof (cases "s = i")
    case True
    with that show ?thesis by (simp add: init(2) as_mask_def pa cast_BOOL_def)
  next
    case False
    with that have fr: "frontier st0 i s = map_option wrap64 (A s i)"
      by (simp add: init(2) as_mask_def pa source_at_def)
    show ?thesis
    proof (cases "A s i")
      case None
      have "\<not> (reach A n s i \<and> hops A n s i = Suc 0)"
        using reach_level [of A n s i "Suc 0"] None that by (auto simp: walks_one)
      with None fr show ?thesis by simp
    next
      case (Some v)
      with unit_weights_entry [OF u that(2,1)] have v: "v = 1" by simp
      have e: "A s i \<noteq> None" using Some by simp
      note er = edge_reach [where A = A and v = s and w = i, OF that(2) e]
      from hops_zero [OF er(1)] False have "hops A n s i \<noteq> 0" by blast
      with er have "reach A n s i \<and> hops A n s i = Suc 0" by simp
      with Some v fr that show ?thesis by (simp add: walks_one wrap64_def)
    qed
  qed
  show ?thesis
    unfolding counted_def by (simp add: init(3,4) p f)
qed

lemma bfs_loop_counted:
  assumes "bfs_loop r A n ns st0 = Inr st" and "no_overflow r A n ns st0"
    and "counted A n st0" and "unit_weights A n" and "ns = n"
  shows "counted A n st"
  using assms
proof (induction r A n ns st0 rule: bfs_loop.induct)
  case (1 r A n ns st0)
  let ?st1 = "bfs_body r A n st0"
  from "1.prems"(1) have nd: "\<not> n \<le> depth st0"
    by (subst (asm) bfs_loop.simps) (auto split: if_splits)
  from "1.prems"(2) nd have fit: "fits A n ns st0"
    by (subst (asm) no_overflow.simps) (auto split: if_splits)
  then have fit: "fits A n n st0" using "1.prems"(5) by simp
  have c1: "counted A n ?st1"
    by (rule counted_body [OF "1.prems"(3,4) fit])
  show ?case
  proof (cases "GrB_Matrix_nvals n ns (frontier ?st1) \<noteq> 0")
    case False
    with "1.prems"(1) nd have "st = ?st1"
      by (subst (asm) bfs_loop.simps) simp
    with c1 show ?thesis by simp
  next
    case True
    with "1.prems"(1) nd have loop1: "bfs_loop r A n ns ?st1 = Inr st"
      by (subst (asm) bfs_loop.simps) simp
    from "1.prems"(2) nd True have no1: "no_overflow r A n ns ?st1"
      by (subst (asm) no_overflow.simps) (auto split: if_splits)
    from "1.IH" [OF nd True loop1 no1 c1 "1.prems"(4,5)] show ?thesis .
  qed
qed

text \<open>
The search ends, with the invariant and with every reachable node within \<open>depth\<close>.
\<close>

lemma forward_counted:
  assumes u: "unit_weights A n" and no: "no_overflow_run r A n GrB_ALL n" and n: "0 < n"
  shows "\<exists>st. forward r A n GrB_ALL n = Inr st \<and> counted A n st \<and> 0 < depth st \<and>
           depth st \<le> n \<and> (\<forall>i<n. \<forall>s<n. reach A n s i \<longrightarrow> hops A n s i \<le> depth st)"
proof -
  from no obtain st0 where st0: "bfs_init r A n GrB_ALL n = Inr st0"
    and no0: "no_overflow r A n n st0"
    by (auto simp: no_overflow_run_def split: sum.splits)
  note init = bfs_init_state [OF st0]
  note pw = unit_positive [OF u]
  note lay = layered_init [OF st0] and pos = positive_init [OF st0 pw]
  from n have d0: "depth st0 < n" by (simp add: init(4))
  have hyp: "r = By_Structure \<or> (positive n n st0 \<and> positive_weights A n \<and> no_overflow r A n n st0)"
    using pos pw no0 by simp
  from bfs_loop_terminates [OF lay hyp d0] obtain st
    where st: "bfs_loop r A n n st0 = Inr st" and dn: "depth st \<le> max (depth st0 + 1) (n - 1)"
    by blast
  from st have fw: "forward r A n GrB_ALL n = Inr st" by (simp add: forward_def st0)
  from bfs_loop_visited [OF st lay pos pw no0] have dp: "0 < depth st" by simp
  from dn n have dle: "depth st \<le> n" by (simp add: init(4))
  note c = bfs_loop_counted [OF st no0 counted_init [OF st0 u] u refl]
  from bfs_loop_exit [OF st] have "\<forall>i<n. \<forall>s<n. frontier st i s = None"
    by (simp add: nvals_zero_iff)
  with c have none: "\<not> (reach A n s i \<and> hops A n s i = Suc (depth st))" if "i < n" "s < n" for i s
    using that unfolding counted_def by (metis option.distinct(1))
  have "hops A n s i \<le> depth st" if "i < n" "s < n" "reach A n s i" for i s
  proof (rule ccontr)
    assume "\<not> hops A n s i \<le> depth st"
    then have "Suc (depth st) \<le> hops A n s i" by simp
    from levels [OF that(2,1,3) this] none that(2) show False by blast
  qed
  with fw c dp dle show ?thesis by blast
qed

lemma products_cong:
  assumes "\<And>k. k < n \<Longrightarrow> a k = a' k" and "\<And>k. k < n \<Longrightarrow> b k = b' k"
  shows "products n mul a b = products n mul a' b'"
  unfolding products_def
  by (intro arg_cong [where f = concat] map_cong refl) (auto simp: assms split: option.splits)

lemma fp_products:
  "products n GrB_TIMES_FP64 (\<lambda>k. map_option Finite (a k)) (\<lambda>k. map_option Finite (b k))
     = map Finite (products n (*) a b)"
  by (induction n) (simp_all add: products_def split: option.splits)

lemma fp_foldl: "foldl GrB_PLUS_FP64 (Finite x) (map Finite ys) = Finite (x + sum_list ys)"
  by (induction ys arbitrary: x) (simp_all add: add.assoc)

lemma fp_reduce:
  "reduce_list GrB_PLUS_FP64 (map Finite xs) =
     (if xs = [] then None else Some (Finite (sum_list xs)))"
  by (cases xs) (simp_all add: reduce_list_def fp_foldl)

text \<open>
One pass of the backward loop takes the invariant from level \<open>i + 1\<close> to level \<open>i\<close>.
\<close>

lemma tallied_step:
  assumes c: "counted A n st"
    and all: "\<forall>i<n. \<forall>s<n. reach A n s i \<longrightarrow> hops A n s i \<le> depth st"
    and u: "unit_weights A n" and i: "0 < i" "i < depth st"
    and t: "tallied A n (Suc i) bs"
  shows "tallied A n i (backward_step r A n st i bs)"
proof -
  from c all have pa: "\<And>v s. v < n \<Longrightarrow> s < n \<Longrightarrow> paths st v s =
        (if reach A n s v then Some (int (sigma A n s v)) else None)"
    by (simp add: counted_def)
  from c have sa: "\<And>k v s. k < depth st \<Longrightarrow> v < n \<Longrightarrow> s < n \<Longrightarrow> (S_array st ! k) v s =
        (if reach A n s v \<and> hops A n s v = Suc k then Some True else None)"
    by (simp add: counted_def)
  from t have bc: "\<And>v s. v < n \<Longrightarrow> s < n \<Longrightarrow> bc_update bs v s =
        Some (Finite (if reach A n s v \<and> Suc i \<le> hops A n s v
                      then 1 + dependency A n s v else 1))"
    by (simp add: tallied_def)
  let ?sh = "bc_share r st i bs"
  let ?b = "\<lambda>s w. if reach A n s w \<and> hops A n s w = Suc i
      then Some ((1 + dependency A n s w) * (1 / of_nat (sigma A n s w))) else None"
  have sh: "?sh w s = map_option Finite (?b s w)" if "w < n" "s < n" for w s
  proof (cases "reach A n s w \<and> hops A n s w = Suc i")
    case True
    then have "sigma A n s w \<noteq> 0" using sigma_pos [OF that(2,1), of A] by simp
    with True show ?thesis
      by (simp add: bc_share_entry as_mask_def sa [OF i(2) that] bc [OF that]
          inv_paths_entry pa [OF that])
  next
    case False
    then have "\<not> as_mask r id (S_array st ! i) w s"
      by (auto simp: as_mask_def sa [OF i(2) that])
    with False show ?thesis
      by (auto simp: bc_share_entry)
  qed
  let ?T = "\<lambda>s v. \<Sum>w<n. if successor A n s v w
      then (1 + dependency A n s w) / of_nat (sigma A n s w) else (0 :: rat)"
  have pr: "bc_propagate r A n st i ?sh v s =
      (if reach A n s v \<and> hops A n s v = i
       then (if \<exists>w<n. successor A n s v w then Some (Finite (?T s v)) else None)
       else None)" if vs: "v < n" "s < n" for v s
  proof (cases "reach A n s v \<and> hops A n s v = i")
    case False
    from i have i1: "i - 1 < depth st" "Suc (i - 1) = i" by simp_all
    from False have "\<not> as_mask r id (S_array st ! (i - 1)) v s"
      unfolding as_mask_def sa [OF i1(1) vs] i1(2) by auto
    with False show ?thesis
      by (simp only: bc_propagate_entry if_False)
  next
    case True
    from i have i1: "i - 1 < depth st" "Suc (i - 1) = i" by simp_all
    from True have m: "as_mask r id (S_array st ! (i - 1)) v s"
      unfolding as_mask_def sa [OF i1(1) vs] i1(2) by auto
    let ?a = "\<lambda>k. map_option (of_int :: int \<Rightarrow> rat) (A v k)"
    have "products n GrB_TIMES_FP64 (\<lambda>k. cast_FP64 A v k) (\<lambda>k. ?sh k s)
        = products n GrB_TIMES_FP64 (\<lambda>k. map_option Finite (?a k))
            (\<lambda>k. map_option Finite (?b s k))"
      by (rule products_cong) (simp_all add: cast_FP64_def option.map_comp comp_def sh vs(2))
    then have p: "products n GrB_TIMES_FP64 (\<lambda>k. cast_FP64 A v k) (\<lambda>k. ?sh k s)
        = map Finite (products n (*) ?a (?b s))"
      by (simp only: fp_products)
    have succ: "successor A n s v w \<longleftrightarrow> A v w \<noteq> None \<and> reach A n s w \<and> hops A n s w = Suc i"
      for w using True by (simp add: successor_def)
    have em: "products n (*) ?a (?b s) = [] \<longleftrightarrow> \<not> (\<exists>w<n. successor A n s v w)"
      by (auto simp: products_empty_iff succ)
    have "(\<Sum>k<n. case ?a k of None \<Rightarrow> 0
             | Some x \<Rightarrow> (case ?b s k of None \<Rightarrow> 0 | Some y \<Rightarrow> x * y)) = ?T s v"
    proof (intro sum.cong refl)
      fix k assume "k \<in> {..<n}"
      then have k: "k < n" by simp
      show "(case ?a k of None \<Rightarrow> 0 | Some x \<Rightarrow> (case ?b s k of None \<Rightarrow> 0 | Some y \<Rightarrow> x * y))
          = (if successor A n s v k
             then (1 + dependency A n s k) / of_nat (sigma A n s k) else 0)"
        using unit_weights_entry [OF u vs(1) k]
        by (auto simp: succ split: option.splits)
    qed
    then have sm: "sum_list (products n (*) ?a (?b s)) = ?T s v"
      by (simp only: sum_list_products)
    from m True show ?thesis
      by (simp only: bc_propagate_entry p fp_reduce em sm if_True) simp
  qed
  have "bc_update (backward_step r A n st i bs) v s =
      Some (Finite (if reach A n s v \<and> i \<le> hops A n s v then 1 + dependency A n s v else 1))"
    if vs: "v < n" "s < n" for v s
  proof (cases "reach A n s v \<and> hops A n s v = i")
    case False
    then have e: "(reach A n s v \<and> Suc i \<le> hops A n s v) = (reach A n s v \<and> i \<le> hops A n s v)"
      by auto
    from False have "bc_propagate r A n st i ?sh v s = None"
      by (simp only: pr [OF vs] if_False)
    then have "bc_update (backward_step r A n st i bs) v s = bc_update bs v s"
      by (simp add: bc_accumulate_entry)
    then show ?thesis
      by (simp only: bc [OF vs] e)
  next
    case True
    have rec: "dependency A n s v = of_nat (sigma A n s v) * ?T s v"
      unfolding sum_distrib_left
      by (subst dependency_recurrence [OF vs(2,1)]) (simp_all add: True if_distrib cong: if_cong)
    have zero: "?T s v = 0" if "\<not> (\<exists>w<n. successor A n s v w)"
      using that by (intro sum.neutral) auto
    from True have b1: "bc_update bs v s = Some (Finite 1)"
      by (simp add: bc [OF vs])
    show ?thesis
    proof (cases "\<exists>w<n. successor A n s v w")
      case False
      with True have "bc_propagate r A n st i ?sh v s = None"
        unfolding pr [OF vs] by simp
      then have "bc_update (backward_step r A n st i bs) v s = Some (Finite 1)"
        by (simp add: bc_accumulate_entry b1)
      with True rec zero [OF False] show ?thesis by simp
    next
      case ex: True
      with True have "bc_propagate r A n st i ?sh v s = Some (Finite (?T s v))"
        unfolding pr [OF vs] by simp
      moreover from True have "cast_FP64 (paths st) v s = Some (Finite (of_nat (sigma A n s v)))"
        by (simp add: pa [OF vs] cast_FP64_def)
      ultimately have "bc_update (backward_step r A n st i bs) v s =
          Some (Finite (1 + ?T s v * of_nat (sigma A n s v)))"
        by (simp add: bc_accumulate_entry b1)
      with True rec show ?thesis by (simp add: mult.commute)
    qed
  qed
  then show ?thesis by (simp add: tallied_def)
qed

lemma backward_loop_levels:
  assumes "0 \<le> i" and "Q (nat i + 1) bs"
    and "\<And>k b. 0 < k \<Longrightarrow> k \<le> i \<Longrightarrow> Q (nat k + 1) b \<Longrightarrow>
           Q (nat k) (backward_step r A n st (nat k) b)"
  shows "Q 1 (backward_loop r A n st i bs)"
  using assms
proof (induction r A n st i bs rule: backward_loop.induct)
  case (1 r A n st i bs)
  show ?case
  proof (cases "0 < i")
    case True
    let ?b = "backward_step r A n st (nat i) bs"
    have "Q (nat i) ?b" using "1.prems"(2,3) True by simp
    moreover have "nat i = nat (i - 1) + 1" using True by simp
    ultimately have q: "Q (nat (i - 1) + 1) ?b" by simp
    from True have nn: "0 \<le> i - 1" by simp
    have "Q 1 (backward_loop r A n st (i - 1) ?b)"
      using "1.prems"(3) by (intro "1.IH" [OF True nn q]) simp
    with True show ?thesis by (subst backward_loop.simps) simp
  next
    case False
    with "1.prems"(1) have "i = 0" by simp
    with "1.prems"(2) show ?thesis by (simp add: backward_loop_nonpos)
  qed
qed

lemma dependency_unreached:
  assumes "s < n" and "v < n" and "\<not> reach A n s v"
  shows "dependency A n s v = 0"
  unfolding dependency_def
  by (intro sum.neutral ballI) (simp add: sigma_through_eq [OF assms(1) _ assms(2)] assms(3))

lemma dependency_last:
  assumes "s < n" and "v < n" and "reach A n s v"
    and "\<forall>w<n. reach A n s w \<longrightarrow> hops A n s w \<le> hops A n s v"
  shows "dependency A n s v = 0"
proof -
  have "\<not> successor A n s v w" if "w < n" for w
    using assms(4) that by (fastforce simp: successor_def)
  then show ?thesis
    by (subst dependency_recurrence [OF assms(1-3)]) (intro sum.neutral, simp)
qed

lemma fp_sum_Finite: "fp_sum (map Finite xs) = Finite (sum_list xs)"
  by (simp add: fp_sum_def fp_foldl)

text \<open>
For an adjacency matrix whose stored values are all 1, with at most \<open>2^24\<close> nodes and
  a search whose sums do not overflow, the call with all nodes as sources returns a
  vector whose entry \<open>i\<close> is the betweenness centrality of node \<open>i\<close> (\<open>GrB_FP64\<close> taken as
  exact).
\<close>

theorem exact_unit_weights:
  assumes u: "unit_weights A n" and no: "no_overflow_run r A n GrB_ALL n"
    and n24: "n \<le> 2 ^ 24" and i: "i < n"
  shows "\<exists>c. LAGraph_bc_batch r A n GrB_ALL n = Inr c \<and>
           c i = Some (Finite (betweenness A n i))"
proof -
  from i have "0 < n" by simp
  from forward_counted [OF u no this] obtain st
    where fw: "forward r A n GrB_ALL n = Inr st" and c: "counted A n st"
      and dp: "0 < depth st" and dle: "depth st \<le> n"
      and all: "\<forall>i<n. \<forall>s<n. reach A n s i \<longrightarrow> hops A n s i \<le> depth st"
    by blast
  let ?bs = "backward r A n n st"
  have t0: "tallied A n (depth st) (init_bc n n)"
  proof -
    have "dependency A n s v = 0" if "v < n" "s < n" "reach A n s v" "depth st \<le> hops A n s v"
      for v s
    proof (rule dependency_last [OF that(2,1,3)], intro allI impI)
      fix w assume "w < n" "reach A n s w"
      with all that(2) have "hops A n s w \<le> depth st" by simp
      with that(4) show "hops A n s w \<le> hops A n s v" by simp
    qed
    then show ?thesis by (simp add: tallied_def init_bc_entry)
  qed
  from n24 have n31: "n < 2 ^ 31" by simp
  from dp dle n31 have w: "wrap32 (int (depth st) - 1) = int (depth st) - 1"
    by (intro wrap32_id) simp_all
  have "tallied A n 1 (backward_loop r A n st (int (depth st) - 1) (init_bc n n))"
  proof (rule backward_loop_levels [where Q = "tallied A n"])
    show "0 \<le> int (depth st) - 1" using dp by simp
    from dp have "nat (int (depth st) - 1) + 1 = depth st" by simp
    with t0 show "tallied A n (nat (int (depth st) - 1) + 1) (init_bc n n)"
      by (simp only:)
    fix k b
    assume k: "0 < k" "k \<le> int (depth st) - 1" and b: "tallied A n (nat k + 1) b"
    from k have "0 < nat k" "nat k < depth st" by simp_all
    from tallied_step [OF c all u this] b
    show "tallied A n (nat k) (backward_step r A n st (nat k) b)" by simp
  qed
  then have t1: "tallied A n 1 ?bs" by (simp add: backward_def w)
  let ?f = "\<lambda>s. if s = i then 0 else dependency A n s i"
  let ?row = "map (\<lambda>s. Finite (1 + ?f s)) [0..<n]"
  have row: "\<forall>s<n. bc_update ?bs i s = Some (?row ! s)"
  proof (intro allI impI)
    fix s assume s: "s < n"
    from t1 i s have e: "bc_update ?bs i s =
        Some (Finite (if reach A n s i \<and> 1 \<le> hops A n s i then 1 + dependency A n s i else 1))"
      by (simp add: tallied_def)
    have "(if reach A n s i \<and> 1 \<le> hops A n s i then 1 + dependency A n s i else 1) = 1 + ?f s"
    proof (cases "s = i")
      case True
      then show ?thesis by simp
    next
      case False
      show ?thesis
      proof (cases "reach A n s i")
        case True
        with hops_zero [OF True] False have "1 \<le> hops A n s i"
          by (cases "hops A n s i") auto
        with True False show ?thesis by simp
      next
        case nr: False
        with dependency_unreached [OF s i nr] False show ?thesis by simp
      qed
    qed
    with e s show "bc_update ?bs i s = Some (?row ! s)" by simp
  qed
  have "centrality_of n n ?bs i =
      Some (GrB_PLUS_FP64 (Finite (of_int (- cast_float (int n)))) (fp_sum ?row))"
    by (rule centrality_of_row [OF row _ i]) simp
  then have "centrality_of n n ?bs i = Some (GrB_PLUS_FP64 (Finite (- of_nat n)) (fp_sum ?row))"
    by (simp add: cast_float_nat [OF n24])
  also have "?row = map Finite (map (\<lambda>s. 1 + ?f s) [0..<n])" by simp
  also have "fp_sum \<dots> = Finite (sum_list (map (\<lambda>s. 1 + ?f s) [0..<n]))"
    by (rule fp_sum_Finite)
  also have "sum_list (map (\<lambda>s. 1 + ?f s) [0..<n]) = of_nat n + betweenness A n i"
    by (simp add: sum_list_upt sum.distrib betweenness_dependency)
  finally have "centrality_of n n ?bs i = Some (Finite (betweenness A n i))" by simp
  with fw show ?thesis by (simp add: LAGraph_bc_batch_def)
qed

text \<open>
The star with centre 0 and four leaves, every edge in both directions: the centre lies on
  the shortest path of each of the 12 ordered pairs of leaves.
\<close>

lemma exact_unit_weights_star:
  "unit_weights (matrix_of [((0, 1), 1), ((1, 0), 1), ((0, 2), 1), ((2, 0), 1),
      ((0, 3), 1), ((3, 0), 1), ((0, 4), 1), ((4, 0), 1)]) 5 \<and>
   no_overflow_run By_Value (matrix_of [((0, 1), 1), ((1, 0), 1), ((0, 2), 1), ((2, 0), 1),
      ((0, 3), 1), ((3, 0), 1), ((0, 4), 1), ((4, 0), 1)]) 5 GrB_ALL 5 \<and>
   betweenness (matrix_of [((0, 1), 1), ((1, 0), 1), ((0, 2), 1), ((2, 0), 1),
      ((0, 3), 1), ((3, 0), 1), ((0, 4), 1), ((4, 0), 1)]) 5 0 = 12 \<and>
   (\<exists>c. LAGraph_bc_batch By_Value (matrix_of [((0, 1), 1), ((1, 0), 1), ((0, 2), 1), ((2, 0), 1),
      ((0, 3), 1), ((3, 0), 1), ((0, 4), 1), ((4, 0), 1)]) 5 GrB_ALL 5 = Inr c \<and>
      c 0 = Some (Finite 12))"
proof -
  let ?A = "matrix_of [((0, 1), 1), ((1, 0), 1), ((0, 2), 1), ((2, 0), 1),
      ((0, 3), 1), ((3, 0), 1), ((0, 4), 1), ((4, 0), 1)]"
  have u: "unit_weights ?A 5" by code_simp
  have o: "no_overflow_run By_Value ?A 5 GrB_ALL 5" by code_simp
  have b: "betweenness ?A 5 0 = 12" by code_simp
  have n: "(5::nat) \<le> 2 ^ 24" "(0::nat) < 5" by simp_all
  from exact_unit_weights [OF u o n] b u o show ?thesis by simp
qed

subsection \<open>Stored values other than 1\<close>

text \<open>
C1 at a concrete input: four nodes, the edges 0-1, 0-2, 1-3 and 2-3, where the edge
  0-1 is stored with the value 2, and all nodes as sources. Half of the shortest paths
  from 0 to 3 pass through node 1, so its centrality is 1/2; the function returns 2/3,
  because \<open>GxB_PLUS_TIMES_INT64\<close> multiplies the stored value into the path counts.
\<close>

theorem C1_weighted_edges:
  "\<not> isl (LAGraph_bc_batch By_Value
            (matrix_of [((0, 1), 2), ((0, 2), 1), ((1, 3), 1), ((2, 3), 1)]) 4 GrB_ALL 4) \<and>
   projr (LAGraph_bc_batch By_Value
            (matrix_of [((0, 1), 2), ((0, 2), 1), ((1, 3), 1), ((2, 3), 1)]) 4 GrB_ALL 4) 1
     = Some (Finite (2 / 3)) \<and>
   betweenness (matrix_of [((0, 1), 2), ((0, 2), 1), ((1, 3), 1), ((2, 3), 1)]) 4 1 = 1 / 2"
  by code_simp

end
